theory Spec2Isabelle
  imports Complex_Main "HOL-Library.Word" "HOL-Library.Signed_Division"
begin

unbundle bit_operations_syntax

section \<open>Machine integers of the C++ source\<close>

text \<open>
  The C++ type \<open>int\<close> is a 32-bit word and \<open>long\<close>/\<open>int64_t\<close> a 64-bit word.
  Addition, subtraction and multiplication wrap around (two's complement): the static
  initialiser \<open>MIN_EPOCH = new DateComponents(INT_MIN)\<close> and its documented value
  -5877490-03-03 are only obtained when the intermediate sum of
  \<open>getLastJ2000DayOfYear\<close> wraps. The operators \<open>/\<close> and \<open>%\<close> truncate towards
  zero; comparisons are signed.
\<close>

type_synonym int32 = "32 word"
type_synonym int64 = "64 word"

definition sdivw :: "'a::len word \<Rightarrow> 'a word \<Rightarrow> 'a word" where
  "sdivw a b = word_of_int (sint a sdiv sint b)"

definition smodw :: "'a::len word \<Rightarrow> 'a word \<Rightarrow> 'a word" where
  "smodw a b = word_of_int (sint a smod sint b)"

text \<open>Reading a C array: an index outside the array is undefined behaviour, \<open>None\<close> here.\<close>

definition array_at :: "'a list \<Rightarrow> int32 \<Rightarrow> 'a option" where
  "array_at xs i =
     (if 0 \<le>s i \<and> sint i < int (length xs) then Some (xs ! nat (sint i)) else None)"

section \<open>DateComponents.cpp\<close>

subsection \<open>MonthDayFactory: LeapYearFactory and CommonYearFactory\<close>

datatype MonthDayFactory = LEAP_YEAR_FACTORY | COMMON_YEAR_FACTORY

definition LeapYear_PREVIOUS_MONTH_END_DAY :: "int32 list" where
  "LeapYear_PREVIOUS_MONTH_END_DAY = [0, 0, 31, 60, 91, 121, 152, 182, 213, 244, 274, 305, 335]"

definition CommonYear_PREVIOUS_MONTH_END_DAY :: "int32 list" where
  "CommonYear_PREVIOUS_MONTH_END_DAY = [0, 0, 31, 59, 90, 120, 151, 181, 212, 243, 273, 304, 334]"

fun PREVIOUS_MONTH_END_DAY :: "MonthDayFactory \<Rightarrow> int32 list" where
  "PREVIOUS_MONTH_END_DAY LEAP_YEAR_FACTORY = LeapYear_PREVIOUS_MONTH_END_DAY"
| "PREVIOUS_MONTH_END_DAY COMMON_YEAR_FACTORY = CommonYear_PREVIOUS_MONTH_END_DAY"

fun md_getMonth :: "MonthDayFactory \<Rightarrow> int32 \<Rightarrow> int32" where
  "md_getMonth LEAP_YEAR_FACTORY dayInYear =
     (if dayInYear <s 32 then 1 else sdivw (10 * dayInYear + 313) 306)"
| "md_getMonth COMMON_YEAR_FACTORY dayInYear =
     (if dayInYear <s 32 then 1 else sdivw (10 * dayInYear + 323) 306)"

definition md_getDay :: "MonthDayFactory \<Rightarrow> int32 \<Rightarrow> int32 \<Rightarrow> int32 option" where
  "md_getDay f dayInYear m =
     map_option (\<lambda>e. dayInYear - e) (array_at (PREVIOUS_MONTH_END_DAY f) m)"

definition md_getDayInYear :: "MonthDayFactory \<Rightarrow> int32 \<Rightarrow> int32 \<Rightarrow> int32 option" where
  "md_getDayInYear f m d =
     map_option (\<lambda>e. d + e) (array_at (PREVIOUS_MONTH_END_DAY f) m)"

subsection \<open>YearFactory: ProlepticJulianFactory, JulianFactory, GregorianFactory\<close>

datatype YearFactory = PROLEPTIC_JULIAN_FACTORY | JULIAN_FACTORY | GREGORIAN_FACTORY

fun y_getLastJ2000DayOfYear :: "YearFactory \<Rightarrow> int32 \<Rightarrow> int32" where
  "y_getLastJ2000DayOfYear PROLEPTIC_JULIAN_FACTORY y = 365 * y + sdivw (y + 1) 4 - 730123"
| "y_getLastJ2000DayOfYear JULIAN_FACTORY y = 365 * y + sdivw y 4 - 730122"
| "y_getLastJ2000DayOfYear GREGORIAN_FACTORY y =
     365 * y + sdivw y 4 - sdivw y 100 + sdivw y 400 - 730120"

text \<open>
  \<open>4l * j2000Day\<close> promotes the day to \<open>long\<close> (\<open>scast\<close>); the cast \<open>(int)\<close>
  keeps the low 32 bits (\<open>ucast\<close>).
\<close>

fun y_getYear :: "YearFactory \<Rightarrow> int32 \<Rightarrow> int32" where
  "y_getYear PROLEPTIC_JULIAN_FACTORY j2000Day =
     ucast (- (sdivw (- 4 * (scast j2000Day :: int64) - 2920488) 1461))"
| "y_getYear JULIAN_FACTORY j2000Day =
     ucast (sdivw (4 * (scast j2000Day :: int64) + 2921948) 1461)"
| "y_getYear GREGORIAN_FACTORY j2000Day =
     (let y = ucast (sdivw (400 * (scast j2000Day :: int64) + 292194288) 146097) :: int32
      in if j2000Day \<le>s y_getLastJ2000DayOfYear GREGORIAN_FACTORY (y - 1) then y - 1 else y)"

fun y_isLeap :: "YearFactory \<Rightarrow> int32 \<Rightarrow> bool" where
  "y_isLeap PROLEPTIC_JULIAN_FACTORY y = (smodw y 4 = 0)"
| "y_isLeap JULIAN_FACTORY y = (smodw y 4 = 0)"
| "y_isLeap GREGORIAN_FACTORY y =
     (smodw y 4 = 0 \<and> (smodw y 400 = 0 \<or> smodw y 100 \<noteq> 0))"

subsection \<open>DateComponents\<close>

record DateComponents =
  year :: int32
  month :: int32
  day :: int32

text \<open>\<open>DateComponents(int year, int month, int day)\<close>: the fields are stored as given.\<close>

definition DateComponents_ymd :: "int32 \<Rightarrow> int32 \<Rightarrow> int32 \<Rightarrow> DateComponents" where
  "DateComponents_ymd y m d = \<lparr>year = y, month = m, day = d\<rparr>"

definition getYear :: "DateComponents \<Rightarrow> int32" where "getYear dc = year dc"
definition getMonth :: "DateComponents \<Rightarrow> int32" where "getMonth dc = month dc"
definition getDay :: "DateComponents \<Rightarrow> int32" where "getDay dc = day dc"

text \<open>\<open>DateComponents(int offset)\<close>.\<close>

definition DateComponents_offset :: "int32 \<Rightarrow> DateComponents option" where
  "DateComponents_offset offset =
     (let yFactory =
            (if offset <s - 152384
             then (if - 730122 <s offset then JULIAN_FACTORY else PROLEPTIC_JULIAN_FACTORY)
             else GREGORIAN_FACTORY);
          y = y_getYear yFactory offset;
          dayInYear = offset - y_getLastJ2000DayOfYear yFactory (y - 1);
          mdFactory = (if y_isLeap yFactory y then LEAP_YEAR_FACTORY else COMMON_YEAR_FACTORY);
          m = md_getMonth mdFactory dayInYear
      in map_option (\<lambda>d. \<lparr>year = y, month = m, day = d\<rparr>) (md_getDay mdFactory dayInYear m))"

definition getJ2000Day :: "DateComponents \<Rightarrow> int32 option" where
  "getJ2000Day dc =
     (let yFactory =
            (if year dc <s 1583
             then (if year dc <s 1 then PROLEPTIC_JULIAN_FACTORY
                   else if year dc <s 1582 \<or> month dc <s 10 \<or> (month dc <s 11 \<and> day dc <s 5)
                        then JULIAN_FACTORY else GREGORIAN_FACTORY)
             else GREGORIAN_FACTORY);
          mdFactory =
            (if y_isLeap yFactory (year dc) then LEAP_YEAR_FACTORY else COMMON_YEAR_FACTORY)
      in map_option (\<lambda>n. y_getLastJ2000DayOfYear yFactory (year dc - 1) + n)
           (md_getDayInYear mdFactory (month dc) (day dc)))"

text \<open>\<open>DateComponents(const DateComponents& epoch, int offset)\<close>.\<close>

definition DateComponents_epoch :: "DateComponents \<Rightarrow> int32 \<Rightarrow> DateComponents option" where
  "DateComponents_epoch epoch offset =
     Option.bind (getJ2000Day epoch) (\<lambda>e. DateComponents_offset (e + offset))"

definition getFirstWeekMonday :: "int32 \<Rightarrow> int32 option" where
  "getFirstWeekMonday y =
     map_option
       (\<lambda>yearFirst.
          let offsetToMonday = 4 - smodw (yearFirst + 2) 7
          in yearFirst + offsetToMonday + (if 3 <s offsetToMonday then - 7 else 0))
       (getJ2000Day (DateComponents_ymd y 1 1))"

definition getCalendarWeek :: "DateComponents \<Rightarrow> int32 option" where
  "getCalendarWeek dc =
     Option.bind (getFirstWeekMonday (year dc)) (\<lambda>firstWeekMonday.
     Option.bind (getJ2000Day dc) (\<lambda>j.
       let daysSincefirstMonday = j - firstWeekMonday
       in if daysSincefirstMonday <s 0
          then map_option
                 (\<lambda>prev. 1 + sdivw (daysSincefirstMonday + (firstWeekMonday - prev)) 7)
                 (getFirstWeekMonday (year dc - 1))
          else if 363 <s daysSincefirstMonday
          then map_option
                 (\<lambda>next.
                    let weekYearLength = next - firstWeekMonday
                    in 1 + sdivw (if weekYearLength \<le>s daysSincefirstMonday
                                  then daysSincefirstMonday - weekYearLength
                                  else daysSincefirstMonday) 7)
                 (getFirstWeekMonday (year dc + 1))
          else Some (1 + sdivw daysSincefirstMonday 7)))"

definition getDayOfWeek :: "DateComponents \<Rightarrow> int32 option" where
  "getDayOfWeek dc =
     map_option (\<lambda>j. let dow = smodw (j + 6) 7 in if dow <s 1 then dow + 7 else dow)
       (getJ2000Day dc)"

definition createFromWeekComponents :: "int32 \<Rightarrow> int32 \<Rightarrow> int32 \<Rightarrow> DateComponents option" where
  "createFromWeekComponents wYear week dayOfWeek =
     Option.bind (getFirstWeekMonday wYear) (\<lambda>fwm.
     Option.bind (DateComponents_offset fwm) (\<lambda>firstWeekMonday.
       DateComponents_epoch firstWeekMonday (7 * week + dayOfWeek - 8)))"

text \<open>\<open>operator<\<close>, \<open>operator==\<close> and \<open>hashCode\<close>.\<close>

definition date_less :: "DateComponents \<Rightarrow> DateComponents \<Rightarrow> bool option" where
  "date_less a b =
     Option.bind (getJ2000Day a) (\<lambda>j2000Day.
       map_option (\<lambda>otherJ2000Day. j2000Day <s otherJ2000Day) (getJ2000Day b))"

definition date_eq :: "DateComponents \<Rightarrow> DateComponents \<Rightarrow> bool" where
  "date_eq a b = (year a = year b \<and> month a = month b \<and> day a = day b)"



section \<open>Double-precision numbers\<close>

text \<open>
  A C++ \<open>double\<close> is a finite real number, an infinity or not-a-number. Arithmetic on
  finite values is the exact operation on the reals followed by \<open>round64\<close>, the IEEE 754
  binary64 rounding to nearest, ties to even: 53 significant bits, least quantum
  \<open>2^-1074\<close>, overflow to infinity from \<open>2^1024\<close> on. The sign of zero is not modelled;
  nothing in the code depends on it.
\<close>

datatype double = Finite real | PlusInf | MinusInf | NaN

definition rne :: "real \<Rightarrow> int" where
  "rne x = (let f = \<lfloor>x\<rfloor>; r = x - of_int f
            in if r < 1 / 2 then f else if 1 / 2 < r then f + 1 else if even f then f else f + 1)"

definition quantum :: "real \<Rightarrow> int" where
  "quantum x = max (\<lfloor>log 2 \<bar>x\<bar>\<rfloor> - 52) (- 1074)"

definition round_real :: "real \<Rightarrow> real" where
  "round_real x = (if x = 0 then 0 else of_int (rne (x / 2 powr quantum x)) * 2 powr quantum x)"

definition round64 :: "real \<Rightarrow> double" where
  "round64 x = (let y = round_real x
                in if 2 ^ 1024 \<le> y then PlusInf else if y \<le> - (2 ^ 1024) then MinusInf else Finite y)"

fun dneg :: "double \<Rightarrow> double" where
  "dneg (Finite a) = Finite (- a)"
| "dneg PlusInf = MinusInf"
| "dneg MinusInf = PlusInf"
| "dneg NaN = NaN"

fun dadd :: "double \<Rightarrow> double \<Rightarrow> double" where
  "dadd (Finite a) (Finite b) = round64 (a + b)"
| "dadd NaN _ = NaN"
| "dadd _ NaN = NaN"
| "dadd PlusInf MinusInf = NaN"
| "dadd MinusInf PlusInf = NaN"
| "dadd PlusInf _ = PlusInf"
| "dadd _ PlusInf = PlusInf"
| "dadd MinusInf _ = MinusInf"
| "dadd _ MinusInf = MinusInf"

definition dsub :: "double \<Rightarrow> double \<Rightarrow> double" where
  "dsub a b = dadd a (dneg b)"

fun dmul :: "double \<Rightarrow> double \<Rightarrow> double" where
  "dmul (Finite a) (Finite b) = round64 (a * b)"
| "dmul NaN _ = NaN"
| "dmul _ NaN = NaN"
| "dmul (Finite a) PlusInf = (if a = 0 then NaN else if 0 < a then PlusInf else MinusInf)"
| "dmul (Finite a) MinusInf = (if a = 0 then NaN else if 0 < a then MinusInf else PlusInf)"
| "dmul PlusInf (Finite b) = (if b = 0 then NaN else if 0 < b then PlusInf else MinusInf)"
| "dmul MinusInf (Finite b) = (if b = 0 then NaN else if 0 < b then MinusInf else PlusInf)"
| "dmul PlusInf PlusInf = PlusInf"
| "dmul MinusInf MinusInf = PlusInf"
| "dmul PlusInf MinusInf = MinusInf"
| "dmul MinusInf PlusInf = MinusInf"

fun dless :: "double \<Rightarrow> double \<Rightarrow> bool" where
  "dless (Finite a) (Finite b) = (a < b)"
| "dless NaN _ = False"
| "dless _ NaN = False"
| "dless _ MinusInf = False"
| "dless PlusInf _ = False"
| "dless MinusInf _ = True"
| "dless _ PlusInf = True"

fun isnan :: "double \<Rightarrow> bool" where
  "isnan NaN = True"
| "isnan _ = False"

text \<open>The C++ operator \<open>==\<close> on doubles: not-a-number compares unequal to every value,
  itself included.\<close>

definition deq :: "double \<Rightarrow> double \<Rightarrow> bool" where
  "deq a b = (\<not> isnan a \<and> \<not> isnan b \<and> a = b)"


fun dfloor :: "double \<Rightarrow> double" where
  "dfloor (Finite a) = Finite (of_int \<lfloor>a\<rfloor>)"
| "dfloor d = d"

text \<open>
  Conversions. An \<open>int\<close> converts to \<open>double\<close> exactly. \<open>static_cast<int>\<close> and
  \<open>static_cast<int64_t>\<close> of a \<open>double\<close> truncate towards zero; when the truncated
  value does not fit the target type, or the operand is an infinity or not-a-number, the
  behaviour is undefined: \<open>None\<close>.
\<close>

definition int32_to_double :: "int32 \<Rightarrow> double" where
  "int32_to_double i = Finite (of_int (sint i))"

definition trunc_real :: "real \<Rightarrow> int" where
  "trunc_real x = (if 0 \<le> x then \<lfloor>x\<rfloor> else \<lceil>x\<rceil>)"

fun double_to_int32 :: "double \<Rightarrow> int32 option" where
  "double_to_int32 (Finite x) =
     (if - 2147483648 \<le> trunc_real x \<and> trunc_real x \<le> 2147483647
      then Some (word_of_int (trunc_real x)) else None)"
| "double_to_int32 _ = None"


section \<open>TimeComponents.cpp\<close>

text \<open>
  Modelled from the spec: \<open>Constants::JULIAN_DAY\<close> of \<open>utils/Constants.h\<close>, which is
  not among the sources; the spec gives the length of a day as 86400 seconds and uses
  it as a floating-point quantity.
\<close>

definition JULIAN_DAY :: double where
  "JULIAN_DAY = Finite 86400"

record TimeComponents =
  hour :: int32
  minute :: int32
  second :: double
  minutesFromUTC :: int32

text \<open>\<open>TimeComponents(int hour, int minute, double second, int minutesFromUTC)\<close> and
  \<open>TimeComponents(int hour, int minute, double second)\<close>.\<close>

definition TimeComponents_hmsu :: "int32 \<Rightarrow> int32 \<Rightarrow> double \<Rightarrow> int32 \<Rightarrow> TimeComponents" where
  "TimeComponents_hmsu h m s u = \<lparr>hour = h, minute = m, second = s, minutesFromUTC = u\<rparr>"

definition TimeComponents_hms :: "int32 \<Rightarrow> int32 \<Rightarrow> double \<Rightarrow> TimeComponents" where
  "TimeComponents_hms h m s = TimeComponents_hmsu h m s 0"

definition H00 :: TimeComponents where
  "H00 = TimeComponents_hms 0 0 (Finite 0)"

definition H12 :: TimeComponents where
  "H12 = TimeComponents_hms 12 0 (Finite 0)"

text \<open>
  The private constructor
  \<open>TimeComponents(int secondInDayA, double secondInDayB, double leap, int minuteDuration)\<close>.
  The literal \<open>0.0000000001\<close> is the double nearest to \<open>10^-10\<close>. The range checks of
  the source are commented out there, and \<open>maxExtraSeconds\<close> is only used by them.
\<close>

definition TimeComponents_split ::
  "int32 \<Rightarrow> double \<Rightarrow> double \<Rightarrow> int32 \<Rightarrow> TimeComponents option" where
  "TimeComponents_split secondInDayA secondInDayB leap minuteDuration =
     (case double_to_int32 (dfloor secondInDayB) of
        None \<Rightarrow> None
      | Some carry \<Rightarrow>
          (let wholeSeconds = secondInDayA + carry;
               fractional = dsub secondInDayB (int32_to_double carry);
               h = sdivw wholeSeconds 3600;
               wholeSeconds1 = wholeSeconds - 3600 * h;
               m = sdivw wholeSeconds1 60;
               wholeSeconds2 = wholeSeconds1 - 60 * m;
               naiveSecond = dadd (int32_to_double wholeSeconds2) (dadd leap fractional);
               s = (if dless naiveSecond (int32_to_double minuteDuration) \<or> isnan naiveSecond
                    then naiveSecond
                    else dsub (int32_to_double minuteDuration) (round64 (1 / 10 ^ 10)))
           in Some \<lparr>hour = h, minute = m, second = s, minutesFromUTC = 0\<rparr>))"

definition fromSeconds :: "int32 \<Rightarrow> double \<Rightarrow> double \<Rightarrow> int32 \<Rightarrow> TimeComponents option" where
  "fromSeconds secondInDayA secondInDayB leap minuteDuration =
     TimeComponents_split secondInDayA secondInDayB leap minuteDuration"

text \<open>\<open>TimeComponents(int secondInDayA, double secondInDayB)\<close> and
  \<open>TimeComponents(double secondInDay)\<close>.\<close>

definition TimeComponents_ab :: "int32 \<Rightarrow> double \<Rightarrow> TimeComponents option" where
  "TimeComponents_ab secondInDayA secondInDayB =
     (let inDay = dless (Finite 0) (dsub (dsub JULIAN_DAY (int32_to_double secondInDayA)) secondInDayB)
      in TimeComponents_split (if inDay then secondInDayA else secondInDayA - 1) secondInDayB
           (if inDay then Finite 0 else Finite 1) (if inDay then 60 else 61))"

definition TimeComponents_s :: "double \<Rightarrow> TimeComponents option" where
  "TimeComponents_s secondInDay = TimeComponents_ab 0 secondInDay"

definition getHour :: "TimeComponents \<Rightarrow> int32" where "getHour tc = hour tc"
definition getMinute :: "TimeComponents \<Rightarrow> int32" where "getMinute tc = minute tc"
definition getSecond :: "TimeComponents \<Rightarrow> double" where "getSecond tc = second tc"
definition getMinutesFromUTC :: "TimeComponents \<Rightarrow> int32" where "getMinutesFromUTC tc = minutesFromUTC tc"

definition getSecondsInLocalDay :: "TimeComponents \<Rightarrow> double" where
  "getSecondsInLocalDay tc =
     dadd (dadd (second tc) (dmul (Finite 60) (int32_to_double (minute tc))))
          (dmul (Finite 3600) (int32_to_double (hour tc)))"

definition getSecondsInUTCDay :: "TimeComponents \<Rightarrow> double" where
  "getSecondsInUTCDay tc =
     dadd (dadd (second tc) (dmul (Finite 60) (int32_to_double (minute tc - minutesFromUTC tc))))
          (dmul (Finite 3600) (int32_to_double (hour tc)))"

definition time_less :: "TimeComponents \<Rightarrow> TimeComponents \<Rightarrow> bool" where
  "time_less a b = dless (getSecondsInUTCDay a) (getSecondsInUTCDay b)"



section \<open>DateTimeComponents.cpp\<close>

record DateTimeComponents =
  date :: DateComponents
  time :: TimeComponents

definition offsetFrom :: "DateTimeComponents \<Rightarrow> DateTimeComponents \<Rightarrow> double option" where
  "offsetFrom a dateTime =
     Option.bind (getJ2000Day (date a)) (\<lambda>j.
       map_option
         (\<lambda>k. let dateOffset = j - k;
                   timeOffset = dsub (getSecondsInUTCDay (time a)) (getSecondsInUTCDay (time dateTime))
               in dadd (dmul JULIAN_DAY (int32_to_double dateOffset)) timeOffset)
         (getJ2000Day (date dateTime)))"

definition datetime_less :: "DateTimeComponents \<Rightarrow> DateTimeComponents \<Rightarrow> bool option" where
  "datetime_less a b =
     (if date_eq (date a) (date b) then Some (time_less (time a) (time b))
      else date_less (date a) (date b))"




definition JL :: "int \<Rightarrow> int" where "JL y = 365 * y + y div 4 - 730122"

definition JY :: "int \<Rightarrow> int" where "JY d = (4 * d + 2921948) div 1461"

definition GL :: "int \<Rightarrow> int" where "GL y = 365 * y + y div 4 - y div 100 + y div 400 - 730120"

definition GE :: "int \<Rightarrow> int" where "GE d = (400 * d + 292194288) div 146097"

definition GY :: "int \<Rightarrow> int" where "GY d = (let e = GE d in if d \<le> GL (e - 1) then e - 1 else e)"

definition leapJ :: "int \<Rightarrow> bool" where "leapJ y = (4 dvd y)"

definition leapG :: "int \<Rightarrow> bool" where "leapG y = (4 dvd y \<and> (400 dvd y \<or> \<not> 100 dvd y))"

definition tab :: "bool \<Rightarrow> int \<Rightarrow> int" where
  "tab lp m = sint ((if lp then LeapYear_PREVIOUS_MONTH_END_DAY else CommonYear_PREVIOUS_MONTH_END_DAY) ! nat m)"

definition tab_next :: "bool \<Rightarrow> int \<Rightarrow> int" where
  "tab_next lp m = (if m = 12 then (if lp then 366 else 365) else tab lp (m + 1))"

definition month_of :: "bool \<Rightarrow> int \<Rightarrow> int" where
  "month_of lp k = (if k < 32 then 1 else (10 * k + (if lp then 313 else 323)) div 306)"

definition date_of_day :: "int \<Rightarrow> int \<times> int \<times> int" where
  "date_of_day D =
     (let jul = D < - 152384;
          Y = (if jul then JY D else GY D);
          k = D - (if jul then JL (Y - 1) else GL (Y - 1));
          lp = (if jul then leapJ Y else leapG Y);
          m = month_of lp k
      in (Y, m, k - tab lp m))"

definition julian_regime :: "int \<Rightarrow> int \<Rightarrow> int \<Rightarrow> bool" where
  "julian_regime Y m dd = (Y < 1583 \<and> (Y < 1 \<or> Y < 1582 \<or> m < 10 \<or> (m < 11 \<and> dd < 5)))"

definition day_of_date :: "int \<Rightarrow> int \<Rightarrow> int \<Rightarrow> int" where
  "day_of_date Y m dd =
     (if julian_regime Y m dd then JL (Y - 1) + (dd + tab (leapJ Y) m)
      else GL (Y - 1) + (dd + tab (leapG Y) m))"

definition leap_year :: "int \<Rightarrow> bool" where
  "leap_year Y = (if Y < 1583 then leapJ Y else leapG Y)"

definition valid_triple :: "int \<Rightarrow> int \<Rightarrow> int \<Rightarrow> bool" where
  "valid_triple Y m dd =
     (1 \<le> m \<and> m \<le> 12 \<and> 1 \<le> dd \<and> dd \<le> tab_next (leap_year Y) m - tab (leap_year Y) m
      \<and> \<not> (Y = 1582 \<and> m = 10 \<and> 5 \<le> dd \<and> dd \<le> 14))"

fun mdf :: "bool \<Rightarrow> MonthDayFactory" where
  "mdf True = LEAP_YEAR_FACTORY" | "mdf False = COMMON_YEAR_FACTORY"

definition mk_date :: "int \<times> int \<times> int \<Rightarrow> DateComponents" where
  "mk_date t = (case t of (Y, m, dd) \<Rightarrow> \<lparr>year = word_of_int Y, month = word_of_int m, day = word_of_int dd\<rparr>)"

definition offset_body :: "YearFactory \<Rightarrow> int32 \<Rightarrow> DateComponents option" where
  "offset_body yFactory offset =
     (let y = y_getYear yFactory offset;
          dayInYear = offset - y_getLastJ2000DayOfYear yFactory (y - 1);
          mdFactory = (if y_isLeap yFactory y then LEAP_YEAR_FACTORY else COMMON_YEAR_FACTORY);
          m = md_getMonth mdFactory dayInYear
      in map_option (\<lambda>d. \<lparr>year = y, month = m, day = d\<rparr>) (md_getDay mdFactory dayInYear m))"

definition j2000_body :: "YearFactory \<Rightarrow> DateComponents \<Rightarrow> int32 option" where
  "j2000_body yFactory dc =
     (let mdFactory =
            (if y_isLeap yFactory (year dc) then LEAP_YEAR_FACTORY else COMMON_YEAR_FACTORY)
      in map_option (\<lambda>n. y_getLastJ2000DayOfYear yFactory (year dc - 1) + n)
           (md_getDayInYear mdFactory (month dc) (day dc)))"

definition valid_date :: "DateComponents \<Rightarrow> bool" where
  "valid_date dc = valid_triple (sint (year dc)) (sint (month dc)) (sint (day dc))"

definition date_lex_le :: "DateComponents \<Rightarrow> DateComponents \<Rightarrow> bool" where
  "date_lex_le a b =
     (year a <s year b \<or> (year a = year b \<and>
        (month a <s month b \<or> (month a = month b \<and> day a \<le>s day b))))"

definition MAX_EPOCH :: "DateComponents option" where
  "MAX_EPOCH = DateComponents_offset 2147483647"

definition MIN_EPOCH :: "DateComponents option" where
  "MIN_EPOCH = DateComponents_offset (- 2147483648)"

definition in_supported_range :: "DateComponents \<Rightarrow> bool" where
  "in_supported_range dc =
     (case (MIN_EPOCH, MAX_EPOCH) of
        (Some lo, Some hi) \<Rightarrow> date_lex_le lo dc \<and> date_lex_le dc hi
      | _ \<Rightarrow> False)"

definition jan1 :: "int \<Rightarrow> int" where
  "jan1 Y = day_of_date Y 1 1"

definition fwm_int :: "int \<Rightarrow> int" where
  "fwm_int Y = jan1 Y + 3 - (jan1 Y + 1) mod 7"

definition weeks_in_week_year :: "int32 \<Rightarrow> int32 option" where
  "weeks_in_week_year wYear =
     (case (getFirstWeekMonday wYear, getFirstWeekMonday (wYear + 1)) of
        (Some f, Some g) \<Rightarrow> Some (sdivw (g - f) 7)
      | _ \<Rightarrow> None)"

definition week_in_range :: "int32 \<Rightarrow> int32 \<Rightarrow> bool" where
  "week_in_range wYear week =
     (case weeks_in_week_year wYear of Some n \<Rightarrow> 1 \<le>s week \<and> week \<le>s n | None \<Rightarrow> False)"

lemma sint32_of_int:
  "- 2147483648 \<le> x \<Longrightarrow> x \<le> 2147483647 \<Longrightarrow> sint (word_of_int x :: int32) = x"
  by (simp add: sint_sbintrunc' signed_take_bit_int_eq_self)

lemma sint64_of_int:
  "- 9223372036854775808 \<le> x \<Longrightarrow> x \<le> 9223372036854775807 \<Longrightarrow> sint (word_of_int x :: int64) = x"
  by (simp add: sint_sbintrunc' signed_take_bit_int_eq_self)

lemma sint32_range: "- 2147483648 \<le> sint (x :: int32)" "sint (x :: int32) \<le> 2147483647"
  using sint_ge [of x] sint_lt [of x] by simp_all

lemma ucast_64_32: "(ucast (word_of_int x :: int64) :: int32) = word_of_int x"
  by (rule bit_word_eqI) (auto simp add: bit_simps)

lemma scast_32_64: "(scast (d :: int32) :: int64) = word_of_int (sint d)"
  by (rule scast_eq)

lemma sdiv_nonneg: "0 \<le> a \<Longrightarrow> 0 < b \<Longrightarrow> a sdiv b = a div b" for a b :: int
  by (simp add: signed_divide_int_def sgn_if)

lemma smod_eq_0_iff:
  fixes a n :: int
  assumes "0 < n"
  shows "a smod n = 0 \<longleftrightarrow> n dvd a"
proof -
  have "a smod n = 0 \<longleftrightarrow> a = 0 \<or> \<bar>a\<bar> mod n = 0"
    using assms by (simp add: signed_modulo_int_def sgn_0_0)
  also have "\<dots> \<longleftrightarrow> n dvd \<bar>a\<bar>"
    by (cases "a = 0") (simp_all add: mod_eq_0_iff_dvd)
  finally show ?thesis by simp
qed

lemma smod_nonneg: "0 \<le> a \<Longrightarrow> 0 < n \<Longrightarrow> a smod n = a mod n" for a n :: int
  by (cases "a = 0") (simp_all add: signed_modulo_int_def)

lemma smod_neg: "a < 0 \<Longrightarrow> 0 < n \<Longrightarrow> a smod n = - ((- a) mod n)" for a n :: int
  by (simp add: signed_modulo_int_def)

lemma sdiv_neg: "a \<le> 0 \<Longrightarrow> 0 < n \<Longrightarrow> a sdiv n = - ((- a) div n)" for a n :: int
  by (cases "a = 0") (simp_all add: signed_divide_int_def)

lemma smod_bound:
  fixes a n :: int
  assumes "0 < n"
  shows "\<bar>a smod n\<bar> < n"
proof (cases "0 \<le> a")
  case True
  then show ?thesis using assms by (simp add: smod_nonneg)
next
  case False
  then have "a smod n = - ((- a) mod n)" using assms by (simp add: smod_neg)
  then show ?thesis using assms by simp
qed

subsection \<open>The calendar formulas on unbounded integers\<close>

lemma div_bounds: "0 < b \<Longrightarrow> b * q \<le> a \<Longrightarrow> a < b * q + b \<Longrightarrow> a div b = q" for a b q :: int
  by (rule int_div_pos_eq [where r = "a - b * q"]) simp_all

lemmas tab_simps = tab_def tab_next_def LeapYear_PREVIOUS_MONTH_END_DAY_def
  CommonYear_PREVIOUS_MONTH_END_DAY_def

lemma month_cases: "1 \<le> m \<Longrightarrow> m \<le> 12 \<Longrightarrow>
  m = 1 \<or> m = 2 \<or> m = 3 \<or> m = 4 \<or> m = 5 \<or> m = 6 \<or> m = 7 \<or> m = 8 \<or> m = 9 \<or> m = 10 \<or> m = 11 \<or> m = (12::int)"
  by presburger

lemma month_of_unique:
  assumes "1 \<le> m" "m \<le> 12" "tab lp m < k" "k \<le> tab_next lp m"
  shows "month_of lp k = m"
proof -
  have *: "306 * m \<le> 10 * k + (if lp then 313 else 323) \<and> 10 * k + (if lp then 313 else 323) < 306 * m + 306"
    if "32 \<le> k"
    using month_cases [OF assms(1,2)] assms(3,4) that
    by (elim disjE; cases lp; simp add: tab_simps)
  show ?thesis
  proof (cases "k < 32")
    case True
    have "m = 1" using month_cases [OF assms(1,2)] assms(3) True
      by (elim disjE; cases lp; simp add: tab_simps)
    with True show ?thesis by (simp add: month_of_def)
  next
    case False
    then have "32 \<le> k" by simp
    from * [OF this] have "(10 * k + (if lp then 313 else 323)) div 306 = m"
      by (intro div_bounds) simp_all
    with False show ?thesis by (simp add: month_of_def)
  qed
qed

lemma month_of_props:
  assumes "1 \<le> k" "k \<le> (if lp then 366 else 365)"
  shows "1 \<le> month_of lp k \<and> month_of lp k \<le> 12 \<and> tab lp (month_of lp k) < k
         \<and> k \<le> tab_next lp (month_of lp k)"
proof -
  have c: "(tab lp 1 < k \<and> k \<le> tab_next lp 1) \<or> (tab lp 2 < k \<and> k \<le> tab_next lp 2)
    \<or> (tab lp 3 < k \<and> k \<le> tab_next lp 3)
    \<or> (tab lp 4 < k \<and> k \<le> tab_next lp 4) \<or> (tab lp 5 < k \<and> k \<le> tab_next lp 5)
    \<or> (tab lp 6 < k \<and> k \<le> tab_next lp 6) \<or> (tab lp 7 < k \<and> k \<le> tab_next lp 7)
    \<or> (tab lp 8 < k \<and> k \<le> tab_next lp 8) \<or> (tab lp 9 < k \<and> k \<le> tab_next lp 9)
    \<or> (tab lp 10 < k \<and> k \<le> tab_next lp 10) \<or> (tab lp 11 < k \<and> k \<le> tab_next lp 11)
    \<or> (tab lp 12 < k \<and> k \<le> tab_next lp 12)"
    using assms by (cases lp; simp add: tab_simps; linarith)
  have r: ?thesis if "1 \<le> m" "m \<le> 12" "tab lp m < k \<and> k \<le> tab_next lp m" for m
  proof -
    from that have "month_of lp k = m" by (intro month_of_unique) simp_all
    with that show ?thesis by simp
  qed
  from c show ?thesis
    by (elim disjE) (rule r [of 1] r [of 2] r [of 3] r [of 4] r [of 5] r [of 6] r [of 7]
      r [of 8] r [of 9] r [of 10] r [of 11] r [of 12], simp, simp, assumption)+
qed

subsection \<open>Year boundaries\<close>

lemma digits400:
  fixes y :: int
  obtains q c t u where "y = 400 * q + 100 * c + 4 * t + u"
    "0 \<le> c" "c \<le> 3" "0 \<le> t" "t \<le> 24" "0 \<le> u" "u \<le> 3"
    "y div 4 = 100 * q + 25 * c + t" "y div 100 = 4 * q + c" "y div 400 = q"
proof -
  define q where "q = y div 400"
  define r where "r = y mod 400"
  define c where "c = r div 100"
  define s where "s = r mod 100"
  define t where "t = s div 4"
  define u where "u = s mod 4"
  have y: "y = 400 * q + r" and r: "0 \<le> r" "r < 400" by (simp_all add: q_def r_def)
  have rr: "r = 100 * c + s" and s: "0 \<le> s" "s < 100" by (simp_all add: c_def s_def)
  have ss: "s = 4 * t + u" and u: "0 \<le> u" "u < 4" by (simp_all add: t_def u_def)
  have c: "0 \<le> c" "c \<le> 3" using r rr s by linarith+
  have t: "0 \<le> t" "t \<le> 24" using s ss u by linarith+
  have d4: "y div 4 = 100 * q + 25 * c + t"
    by (rule int_div_pos_eq [where r = u]) (use y rr ss u in \<open>simp_all add: algebra_simps\<close>)
  have d100: "y div 100 = 4 * q + c"
    by (rule int_div_pos_eq [where r = s]) (use y rr s in \<open>simp_all add: algebra_simps\<close>)
  have d400: "y div 400 = q" by (simp add: q_def)
  show ?thesis
    by (rule that [of q c t u]) (use y rr ss c t u d4 d100 d400 in \<open>simp_all add: algebra_simps\<close>)
qed

lemma div_pred:
  fixes y n :: int
  assumes n: "0 < n"
  shows "(y - 1) div n = y div n - (if n dvd y then 1 else 0)"
proof -
  define q where "q = y div n"
  define r where "r = y mod n"
  have y: "y = n * q + r" and r: "0 \<le> r" "r < n" using n by (simp_all add: q_def r_def)
  show ?thesis
  proof (cases "r = 0")
    case True
    then have "n dvd y" using y by simp
    moreover have "(y - 1) div n = q - 1"
      by (rule int_div_pos_eq [where r = "n - 1"]) (use y True n in \<open>simp_all add: algebra_simps\<close>)
    ultimately show ?thesis by (simp add: q_def)
  next
    case False
    then have "\<not> n dvd y" by (simp add: r_def dvd_eq_mod_eq_0)
    moreover have "(y - 1) div n = q"
      by (rule int_div_pos_eq [where r = "r - 1"]) (use y False r in \<open>simp_all add: algebra_simps\<close>)
    ultimately show ?thesis by (simp add: q_def)
  qed
qed

lemma digits4:
  fixes y :: int
  obtains t u where "y = 4 * t + u" "0 \<le> u" "u \<le> 3" "y div 4 = t"
  by (rule that [of "y div 4" "y mod 4"]) (simp_all add: zle_diff1_eq [of _ 4, simplified])

lemma J1: "JL (JY d - 1) < d \<and> d \<le> JL (JY d)"
proof -
  define e where "e = JY d"
  have "(4 * d + 2921948) mod 1461 < 1461" "0 \<le> (4 * d + 2921948) mod 1461" by simp_all
  then have e: "4 * d + 2921948 < 1461 * e + 1461" "1461 * e \<le> 4 * d + 2921948"
    unfolding e_def JY_def using div_mult_mod_eq [of "4 * d + 2921948" 1461] by linarith+
  obtain t u where z: "e = 4 * t + u" "0 \<le> u" "u \<le> 3" "e div 4 = t"
    by (rule digits4)
  obtain t' u' where z': "e - 1 = 4 * t' + u'" "0 \<le> u'" "u' \<le> 3" "(e - 1) div 4 = t'"
    by (rule digits4)
  have e1: "e = 4 * t' + u' + 1" using z' by simp
  have "d \<le> JL e" unfolding JL_def z(4) using e z(1-3) by (simp add: algebra_simps)
  moreover have "JL (e - 1) < d" unfolding JL_def z'(4) using e e1 z'(2,3) by (simp add: algebra_simps)
  ultimately show ?thesis by (simp add: e_def)
qed

lemma J2: "JL y - JL (y - 1) = 365 + (if leapJ y then 1 else 0)"
  unfolding JL_def leapJ_def div_pred [of 4 y, simplified] by simp

lemma leap_bool:
  fixes A B C :: bool
  assumes "C \<Longrightarrow> B" "B \<Longrightarrow> A"
  shows "(if A then 1 else 0) - (if B then 1 else 0) + (if C then 1 else (0::int))
       = (if A \<and> (C \<or> \<not> B) then 1 else 0)"
  using assms by (cases A; cases B; cases C; simp)

lemma G2_aux:
  fixes y p q r a b c :: int
  shows "365 * y + p - q + r - 730120 - (365 * (y - 1) + (p - a) - (q - b) + (r - c) - 730120)
       = 365 + (a - b + c)"
  by (simp add: algebra_simps)

lemma G2: "GL y - GL (y - 1) = 365 + (if leapG y then 1 else 0)"
proof -
  have "400 dvd y \<Longrightarrow> 100 dvd y" by (rule dvd_trans [of 100 400 y]) simp_all
  moreover have "100 dvd y \<Longrightarrow> 4 dvd y" by (rule dvd_trans [of 4 100 y]) simp_all
  ultimately have abc: "(if 4 dvd y then 1 else 0) - (if 100 dvd y then 1 else 0) + (if 400 dvd y then 1 else (0::int))
      = (if 4 dvd y \<and> (400 dvd y \<or> \<not> 100 dvd y) then 1 else 0)"
    by (rule leap_bool)
  have d: "(y - 1) div 4 = y div 4 - (if 4 dvd y then 1 else 0)"
    "(y - 1) div 100 = y div 100 - (if 100 dvd y then 1 else 0)"
    "(y - 1) div 400 = y div 400 - (if 400 dvd y then 1 else 0)"
    by (rule div_pred, simp)+
  show ?thesis unfolding GL_def leapG_def d G2_aux abc ..
qed

lemma G1a: "GL (GE d - 2) < d"
proof -
  define e where "e = GE d"
  have e: "146097 * e \<le> 400 * d + 292194288"
    unfolding e_def GE_def by (simp add: mult.commute [of 146097]) 
  obtain q c t u where z: "e - 2 = 400 * q + 100 * c + 4 * t + u"
    "0 \<le> c" "c \<le> 3" "0 \<le> t" "t \<le> 24" "0 \<le> u" "u \<le> 3"
    "(e - 2) div 4 = 100 * q + 25 * c + t" "(e - 2) div 100 = 4 * q + c" "(e - 2) div 400 = q"
    by (rule digits400)
  have "e = 400 * q + 100 * c + 4 * t + u + 2" using z(1) by simp
  then show ?thesis unfolding GL_def e_def [symmetric] z(8,9,10) using e z(2-7) by (simp add: algebra_simps)
qed

lemma G1b: "d \<le> GL (GE d)"
proof -
  define e where "e = GE d"
  have "(400 * d + 292194288) mod 146097 < 146097" by simp
  then have e: "400 * d + 292194288 < 146097 * e + 146097"
    unfolding e_def GE_def using div_mult_mod_eq [of "400 * d + 292194288" 146097] by linarith
  obtain q c t u where z: "e = 400 * q + 100 * c + 4 * t + u"
    "0 \<le> c" "c \<le> 3" "0 \<le> t" "t \<le> 24" "0 \<le> u" "u \<le> 3"
    "e div 4 = 100 * q + 25 * c + t" "e div 100 = 4 * q + c" "e div 400 = q"
    by (rule digits400)
  show ?thesis unfolding GL_def e_def [symmetric] z(8,9,10) using e z(1-7) by (simp add: algebra_simps)
qed

lemma G1: "GL (GY d - 1) < d \<and> d \<le> GL (GY d)"
  using G1a [of d] G1b [of d] by (auto simp: GY_def Let_def)

lemma G3: "a \<le> b \<Longrightarrow> GL a \<le> GL b"
proof (induction b rule: int_ge_induct)
  case base show ?case by simp
next
  case (step b)
  from G2 [of "b + 1"] have "GL b \<le> GL (b + 1)" by (simp split: if_splits)
  with step show ?case by simp
qed

lemma J3: "a \<le> b \<Longrightarrow> JL a \<le> JL b"
proof (induction b rule: int_ge_induct)
  case base show ?case by simp
next
  case (step b)
  from J2 [of "b + 1"] have "JL b \<le> JL (b + 1)" by (simp split: if_splits)
  with step show ?case by simp
qed

lemma JY_unique: "JL (y - 1) < d \<Longrightarrow> d \<le> JL y \<Longrightarrow> JY d = y"
proof (rule ccontr)
  assume a: "JL (y - 1) < d" "d \<le> JL y" and n: "JY d \<noteq> y"
  note b = J1 [of d]
  show False
  proof (cases "JY d < y")
    case True
    then have "JL (JY d) \<le> JL (y - 1)" by (intro J3) simp
    with a b show False by simp
  next
    case False
    with n have "JL y \<le> JL (JY d - 1)" by (intro J3) simp
    with a b show False by simp
  qed
qed

lemma GY_unique: "GL (y - 1) < d \<Longrightarrow> d \<le> GL y \<Longrightarrow> GY d = y"
proof (rule ccontr)
  assume a: "GL (y - 1) < d" "d \<le> GL y" and n: "GY d \<noteq> y"
  note b = G1 [of d]
  show False
  proof (cases "GY d < y")
    case True
    then have "GL (GY d) \<le> GL (y - 1)" by (intro G3) simp
    with a b show False by simp
  next
    case False
    with n have "GL y \<le> GL (GY d - 1)" by (intro G3) simp
    with a b show False by simp
  qed
qed

subsection \<open>Day number to date and back, on unbounded integers\<close>

lemma JL_1581: "JL 1581 = - 152662" and JL_1582: "JL 1582 = - 152297"
  and GL_1581: "GL 1581 = - 152672" and GL_1582: "GL 1582 = - 152307"
  and leapJ_1582: "\<not> leapJ 1582" and leapG_1582: "\<not> leapG 1582"
  by (simp_all add: JL_def GL_def leapJ_def leapG_def)

lemma tab_mono_10:
  assumes "1 \<le> m" "m \<le> 12" "tab False m < 277"
  shows "m \<le> 10"
  using month_cases [OF assms(1,2)] assms(3) by (elim disjE; simp add: tab_simps)

lemma tab_next_10:
  assumes "1 \<le> m" "m \<le> 12" "288 \<le> tab_next False m"
  shows "10 \<le> m"
  using month_cases [OF assms(1,2)] assms(3) by (elim disjE; simp add: tab_simps)

lemma tab_len_pos:
  assumes "1 \<le> m" "m \<le> 12"
  shows "0 \<le> tab lp m \<and> tab lp m < tab_next lp m \<and> tab_next lp m \<le> (if lp then 366 else 365)"
  using month_cases [OF assms(1,2)] by (elim disjE; cases lp; simp add: tab_simps)

lemma tab_10: "tab False 10 = 273" "tab_next False 10 = 304"
  by (simp_all add: tab_simps)

theorem day_of_date_of_day:
  "case date_of_day D of (Y, m, dd) \<Rightarrow> valid_triple Y m dd \<and> day_of_date Y m dd = D"
proof (cases "D < - 152384")
  case True
  define Y where "Y = JY D"
  define k where "k = D - JL (Y - 1)"
  define m where "m = month_of (leapJ Y) k"
  have dd: "date_of_day D = (Y, m, k - tab (leapJ Y) m)"
    using True by (simp add: date_of_day_def Y_def k_def m_def Let_def)
  have b: "JL (Y - 1) < D" "D \<le> JL Y" using J1 [of D] by (simp_all add: Y_def)
  have Y: "Y \<le> 1582"
  proof (rule ccontr)
    assume "\<not> Y \<le> 1582"
    then have "JL 1582 \<le> JL (Y - 1)" by (intro J3) simp
    with b True show False by (simp add: JL_1582)
  qed
  have k: "1 \<le> k" "k \<le> (if leapJ Y then 366 else 365)"
    using b J2 [of Y] by (simp_all add: k_def split: if_splits)
  note mp = month_of_props [OF k, folded m_def]
  have lp: "leap_year Y = leapJ Y" using Y by (simp add: leap_year_def)
  have k277: "k \<le> 277" if "Y = 1582"
    using that True by (simp add: k_def JL_1581)
  have c: "leapJ Y = False" if "Y = 1582" using that leapJ_1582 by simp
  have m10: "m < 10 \<or> (m < 11 \<and> k - tab (leapJ Y) m < 5)" if y: "Y = 1582"
  proof -
    have "tab False m < 277" using mp k277 [OF y] c [OF y] by simp
    then have "m \<le> 10" using mp by (intro tab_mono_10) simp_all
    then show ?thesis using k277 [OF y] c [OF y] by (cases "m = 10") (simp_all add: tab_10)
  qed
  have jr: "julian_regime Y m (k - tab (leapJ Y) m)"
    using Y m10 by (cases "Y = 1582") (simp_all add: julian_regime_def)
  have gap: "\<not> (Y = 1582 \<and> m = 10 \<and> 5 \<le> k - tab (leapJ Y) m \<and> k - tab (leapJ Y) m \<le> 14)"
    using k277 c by (auto simp: tab_10)
  have "valid_triple Y m (k - tab (leapJ Y) m)"
    using mp gap by (simp add: valid_triple_def lp)
  moreover have "day_of_date Y m (k - tab (leapJ Y) m) = D"
    using jr by (simp add: day_of_date_def k_def)
  ultimately show ?thesis by (simp add: dd)
next
  case False
  define Y where "Y = GY D"
  define k where "k = D - GL (Y - 1)"
  define m where "m = month_of (leapG Y) k"
  have dd: "date_of_day D = (Y, m, k - tab (leapG Y) m)"
    using False by (simp add: date_of_day_def Y_def k_def m_def Let_def)
  have b: "GL (Y - 1) < D" "D \<le> GL Y" using G1 [of D] by (simp_all add: Y_def)
  have Y: "1582 \<le> Y"
  proof (rule ccontr)
    assume "\<not> 1582 \<le> Y"
    then have "GL Y \<le> GL 1581" by (intro G3) simp
    with b False show False by (simp add: GL_1581)
  qed
  have k: "1 \<le> k" "k \<le> (if leapG Y then 366 else 365)"
    using b G2 [of Y] by (simp_all add: k_def split: if_splits)
  note mp = month_of_props [OF k, folded m_def]
  have c: "leapG Y = False" if "Y = 1582" using that leapG_1582 by simp
  have lp: "leap_year Y = leapG Y"
    using Y c by (cases "Y = 1582") (simp_all add: leap_year_def leapJ_1582)
  have k288: "288 \<le> k" if "Y = 1582"
    using that False by (simp add: k_def GL_1581)
  have m10: "10 \<le> m \<and> (m = 10 \<longrightarrow> 15 \<le> k - tab (leapG Y) m)" if y: "Y = 1582"
  proof -
    have "288 \<le> tab_next False m" using mp k288 [OF y] c [OF y] by simp
    then have "10 \<le> m" using mp by (intro tab_next_10) simp_all
    then show ?thesis using k288 [OF y] c [OF y] by (simp add: tab_10)
  qed
  have jr: "\<not> julian_regime Y m (k - tab (leapG Y) m)"
  proof (cases "Y = 1582")
    case True
    from m10 [OF True] show ?thesis
      by (cases "m = 10") (simp_all add: julian_regime_def True)
  next
    case False
    with Y show ?thesis by (simp add: julian_regime_def)
  qed
  have gap: "\<not> (Y = 1582 \<and> m = 10 \<and> 5 \<le> k - tab (leapG Y) m \<and> k - tab (leapG Y) m \<le> 14)"
    using k288 c by (auto simp: tab_10)
  have "valid_triple Y m (k - tab (leapG Y) m)"
    using mp gap by (simp add: valid_triple_def lp)
  moreover have "day_of_date Y m (k - tab (leapG Y) m) = D"
    using jr by (simp add: day_of_date_def k_def)
  ultimately show ?thesis by (simp add: dd)
qed

theorem date_of_day_of_date:
  assumes v: "valid_triple Y m dd"
  shows "date_of_day (day_of_date Y m dd) = (Y, m, dd)"
proof -
  from v have m: "1 \<le> m" "m \<le> 12" and d: "1 \<le> dd" "dd \<le> tab_next (leap_year Y) m - tab (leap_year Y) m"
    and gap: "\<not> (Y = 1582 \<and> m = 10 \<and> 5 \<le> dd \<and> dd \<le> 14)"
    by (simp_all add: valid_triple_def)
  show ?thesis
  proof (cases "julian_regime Y m dd")
    case True
    then have Y: "Y \<le> 1582" by (simp add: julian_regime_def)
    then have lp: "leap_year Y = leapJ Y" by (simp add: leap_year_def)
    define k where "k = dd + tab (leapJ Y) m"
    define D where "D = JL (Y - 1) + k"
    have DD: "day_of_date Y m dd = D" using True by (simp add: day_of_date_def D_def k_def)
    note t = tab_len_pos [OF m, of "leapJ Y"]
    have k: "tab (leapJ Y) m < k" "k \<le> tab_next (leapJ Y) m" "1 \<le> k" "k \<le> (if leapJ Y then 366 else 365)"
      using d t by (simp_all add: k_def lp)
    have b: "JL (Y - 1) < D" "D \<le> JL Y" using k J2 [of Y] by (simp_all add: D_def split: if_splits)
    have jul: "D < - 152384"
    proof (cases "Y = 1582")
      case y: True
      with True have "m < 10 \<or> (m < 11 \<and> dd < 5)" by (simp add: julian_regime_def)
      then have "k \<le> 277"
      proof
        assume "m < 10"
        then have "tab_next False m \<le> 273" using month_cases [OF m] by (elim disjE; simp add: tab_simps)
        with k y show ?thesis by (simp add: leapJ_1582)
      next
        assume a: "m < 11 \<and> dd < 5"
        show ?thesis
        proof (cases "m = 10")
          case True with a y show ?thesis by (simp add: k_def leapJ_1582 tab_10)
        next
          case False
          with a have "m < 10" by simp
          then have "tab_next False m \<le> 273" using month_cases [OF m] by (elim disjE; simp add: tab_simps)
          with k y show ?thesis by (simp add: leapJ_1582)
        qed
      qed
      with y show ?thesis by (simp add: D_def JL_1581)
    next
      case False
      with Y have "JL Y \<le> JL 1581" by (intro J3) simp
      with b show ?thesis by (simp add: JL_1581)
    qed
    have "JY D = Y" using b by (rule JY_unique)
    moreover have "month_of (leapJ Y) k = m" using m k(1,2) by (rule month_of_unique)
    ultimately have "date_of_day D = (Y, m, dd)"
      using jul by (simp add: date_of_day_def Let_def D_def k_def)
    then show ?thesis by (simp add: DD)
  next
    case False
    then have Y: "1582 \<le> Y" by (cases "Y < 1582") (simp_all add: julian_regime_def)
    have lp: "leap_year Y = leapG Y"
      using Y by (cases "Y = 1582") (simp_all add: leap_year_def leapJ_1582 leapG_1582)
    define k where "k = dd + tab (leapG Y) m"
    define D where "D = GL (Y - 1) + k"
    have DD: "day_of_date Y m dd = D" using False by (simp add: day_of_date_def D_def k_def)
    note t = tab_len_pos [OF m, of "leapG Y"]
    have k: "tab (leapG Y) m < k" "k \<le> tab_next (leapG Y) m" "1 \<le> k" "k \<le> (if leapG Y then 366 else 365)"
      using d t by (simp_all add: k_def lp)
    have b: "GL (Y - 1) < D" "D \<le> GL Y" using k G2 [of Y] by (simp_all add: D_def split: if_splits)
    have greg: "\<not> D < - 152384"
    proof (cases "Y = 1582")
      case y: True
      with False have n: "\<not> m < 10" "\<not> (m < 11 \<and> dd < 5)" by (simp_all add: julian_regime_def)
      have "288 \<le> k"
      proof (cases "m = 10")
        case True
        with n gap y have "15 \<le> dd" by simp
        with True y show ?thesis by (simp add: k_def leapG_1582 tab_10)
      next
        case False
        with n have "11 \<le> m" by simp
        then have "304 \<le> tab False m" using month_cases [OF m] by (elim disjE; simp add: tab_simps)
        with k y show ?thesis by (simp add: leapG_1582)
      qed
      with y show ?thesis by (simp add: D_def GL_1581)
    next
      case False
      with Y have "GL 1582 \<le> GL (Y - 1)" by (intro G3) simp
      with b show ?thesis by (simp add: GL_1582)
    qed
    have "GY D = Y" using b by (rule GY_unique)
    moreover have "month_of (leapG Y) k = m" using m k(1,2) by (rule month_of_unique)
    ultimately have "date_of_day D = (Y, m, dd)"
      using greg by (simp add: date_of_day_def Let_def D_def k_def)
    then show ?thesis by (simp add: DD)
  qed
qed

subsection \<open>The 32-bit code computes the integer formulas\<close>

lemma sdivw_nonneg:
  fixes a :: "'a::len word"
  assumes "0 \<le> sint a" "0 < n" "sint b = n"
  shows "sdivw a b = word_of_int (sint a div n)"
  using assms by (simp add: sdivw_def sdiv_nonneg)

lemma word32_eq_0_small:
  assumes "\<bar>x\<bar> < 2147483648"
  shows "(word_of_int x :: int32) = 0 \<longleftrightarrow> x = 0"
proof
  assume "(word_of_int x :: int32) = 0"
  then have "sint (word_of_int x :: int32) = 0" by simp
  moreover have "sint (word_of_int x :: int32) = x" using assms by (intro sint32_of_int) simp_all
  ultimately show "x = 0" by simp
qed simp

lemma smodw_eq_0_iff:
  fixes y :: int32
  assumes "0 < n" "n < 2147483648" "sint (b :: int32) = n"
  shows "smodw y b = 0 \<longleftrightarrow> n dvd sint y"
proof -
  have "\<bar>sint y smod n\<bar> < 2147483648" using smod_bound [of n "sint y"] assms by linarith
  then have "smodw y b = 0 \<longleftrightarrow> sint y smod n = 0"
    unfolding smodw_def assms(3) by (rule word32_eq_0_small)
  then show ?thesis using assms(1) by (simp add: smod_eq_0_iff)
qed

lemma isLeap_J: "y_isLeap JULIAN_FACTORY y = leapJ (sint y)"
  by (simp add: leapJ_def smodw_eq_0_iff [where n = 4])

lemma isLeap_PJ: "y_isLeap PROLEPTIC_JULIAN_FACTORY y = leapJ (sint y)"
  by (simp add: leapJ_def smodw_eq_0_iff [where n = 4])

lemma isLeap_G: "y_isLeap GREGORIAN_FACTORY y = leapG (sint y)"
  by (simp add: leapG_def smodw_eq_0_iff [where n = 4] smodw_eq_0_iff [where n = 100]
      smodw_eq_0_iff [where n = 400])

lemma getLast_J:
  assumes "0 \<le> sint y"
  shows "y_getLastJ2000DayOfYear JULIAN_FACTORY y = word_of_int (JL (sint y))"
  using assms by (simp add: JL_def sdivw_nonneg [where n = 4])

lemma getLast_G:
  assumes "0 \<le> sint y"
  shows "y_getLastJ2000DayOfYear GREGORIAN_FACTORY y = word_of_int (GL (sint y))"
  using assms by (simp add: GL_def sdivw_nonneg [where n = 4] sdivw_nonneg [where n = 100]
      sdivw_nonneg [where n = 400])

lemma trunc_div4_neg: "y \<le> - 1 \<Longrightarrow> (y + 1) sdiv 4 = y div 4 + 1" for y :: int
proof -
  assume y: "y \<le> - 1"
  obtain t u where z: "y = 4 * t + u" "0 \<le> u" "u \<le> 3" "y div 4 = t" by (rule digits4)
  have "(- (y + 1)) div 4 = - t - 1"
    by (rule int_div_pos_eq [where r = "3 - u"]) (use z in \<open>simp_all add: algebra_simps\<close>)
  then show ?thesis using y z(4) by (simp add: sdiv_neg)
qed

lemma getLast_PJ:
  assumes "sint y \<le> - 1"
  shows "y_getLastJ2000DayOfYear PROLEPTIC_JULIAN_FACTORY y = word_of_int (JL (sint y))"
proof -
  have "sint (y + 1) = sint y + 1"
    using assms sint32_range [of y] sint32_of_int [of "sint y + 1"] by simp
  then have "sdivw (y + 1) 4 = word_of_int (sint y div 4 + 1)"
    using assms by (simp add: sdivw_def trunc_div4_neg)
  then show ?thesis by (simp add: JL_def)
qed

lemma JY_ceil: "- ((- 4 * d - 2920488) div 1461) = JY d"
proof -
  define x where "x = - 4 * d - 2920488"
  define q where "q = x div 1461"
  define r where "r = x mod 1461"
  have x: "x = 1461 * q + r" and r: "0 \<le> r" "r < 1461" by (simp_all add: q_def r_def)
  have "(4 * d + 2921948) div 1461 = - q"
    by (rule int_div_pos_eq [where r = "1460 - r"]) (use x r in \<open>simp_all add: x_def algebra_simps\<close>)
  then show ?thesis by (simp add: JY_def q_def x_def)
qed

lemma JY_bounds: "1461 * JY d \<le> 4 * d + 2921948" "4 * d + 2921948 < 1461 * JY d + 1461"
proof -
  have "0 \<le> (4 * d + 2921948) mod 1461" "(4 * d + 2921948) mod 1461 < 1461" by simp_all
  then show "1461 * JY d \<le> 4 * d + 2921948" "4 * d + 2921948 < 1461 * JY d + 1461"
    unfolding JY_def using div_mult_mod_eq [of "4 * d + 2921948" 1461] by linarith+
qed

lemma GE_bounds: "146097 * GE d \<le> 400 * d + 292194288" "400 * d + 292194288 < 146097 * GE d + 146097"
proof -
  have "0 \<le> (400 * d + 292194288) mod 146097" "(400 * d + 292194288) mod 146097 < 146097" by simp_all
  then show "146097 * GE d \<le> 400 * d + 292194288" "400 * d + 292194288 < 146097 * GE d + 146097"
    unfolding GE_def using div_mult_mod_eq [of "400 * d + 292194288" 146097] by linarith+
qed

lemma long_of_int: "(scast (d :: int32) :: int64) = word_of_int (sint d)"
  by (rule scast_eq)

lemma getYear_J:
  assumes "- 730122 < sint d"
  shows "y_getYear JULIAN_FACTORY d = word_of_int (JY (sint d))"
proof -
  define x where "x = 4 * sint d + 2921948"
  have r: "0 \<le> x" "x \<le> 9223372036854775807" using assms sint32_range [of d] by (simp_all add: x_def)
  have "4 * (scast d :: int64) + 2921948 = word_of_int x" by (simp add: x_def)
  moreover have "sint (word_of_int x :: int64) = x" using r by (intro sint64_of_int) simp_all
  ultimately have "sdivw (4 * (scast d :: int64) + 2921948) 1461 = word_of_int (x div 1461)"
    using r by (simp add: sdivw_def sdiv_nonneg)
  then show ?thesis by (simp add: ucast_64_32 JY_def x_def)
qed

lemma getYear_PJ:
  assumes "sint d \<le> - 730122"
  shows "y_getYear PROLEPTIC_JULIAN_FACTORY d = word_of_int (JY (sint d))"
proof -
  define x where "x = - 4 * sint d - 2920488"
  have r: "0 \<le> x" "x \<le> 9223372036854775807" using assms sint32_range [of d] by (simp_all add: x_def)
  have "- 4 * (scast d :: int64) - 2920488 = word_of_int x" by (simp add: x_def)
  moreover have "sint (word_of_int x :: int64) = x" using r by (intro sint64_of_int) simp_all
  ultimately have h: "- sdivw (- 4 * (scast d :: int64) - 2920488) 1461 = word_of_int (- (x div 1461))"
    using r by (simp add: sdivw_def sdiv_nonneg)
  show ?thesis unfolding y_getYear.simps h ucast_64_32 x_def JY_ceil ..
qed

lemma GL_5881609: "GL 5881609 = 2147483455" and GL_5881610: "GL 5881610 = 2147483820"
  and JL_m5877491: "JL (- 5877491) = - 2147483710" and JL_m5877490: "JL (- 5877490) = - 2147483345"
  and JL_0: "JL 0 = - 730122"
  by (simp_all add: GL_def JL_def)

lemma getYear_G:
  assumes "- 152384 \<le> sint d"
  shows "y_getYear GREGORIAN_FACTORY d = word_of_int (GY (sint d))"
proof -
  define D where "D = sint d"
  define x where "x = 400 * D + 292194288"
  have D: "- 152384 \<le> D" "D \<le> 2147483647" using assms sint32_range [of d] by (simp_all add: D_def)
  have r: "0 \<le> x" "x \<le> 9223372036854775807" using D by (simp_all add: x_def)
  have "400 * (scast d :: int64) + 292194288 = word_of_int x" by (simp add: x_def D_def)
  moreover have "sint (word_of_int x :: int64) = x" using r by (intro sint64_of_int) simp_all
  ultimately have "sdivw (400 * (scast d :: int64) + 292194288) 146097 = word_of_int (x div 146097)"
    using r by (simp add: sdivw_def sdiv_nonneg)
  then have e: "(ucast (sdivw (400 * (scast d :: int64) + 292194288) 146097) :: int32) = word_of_int (GE D)"
    by (simp add: ucast_64_32 GE_def x_def)
  have E: "1582 \<le> GE D" "GE D \<le> 5881610" using GE_bounds [of D] D by linarith+
  have s1: "sint (word_of_int (GE D - 1) :: int32) = GE D - 1" using E by (intro sint32_of_int) simp_all
  have "GL 1581 \<le> GL (GE D - 1)" "GL (GE D - 1) \<le> GL 5881609" using E by (intro G3, simp)+
  then have s2: "sint (word_of_int (GL (GE D - 1)) :: int32) = GL (GE D - 1)"
    by (intro sint32_of_int) (simp_all add: GL_1581 GL_5881609)
  have l: "y_getLastJ2000DayOfYear GREGORIAN_FACTORY (word_of_int (GE D) - 1) = word_of_int (GL (GE D - 1))"
    using getLast_G [of "word_of_int (GE D - 1)"] s1 E by simp
  show ?thesis
    unfolding y_getYear.simps e Let_def l word_sle_eq s2 D_def [symmetric]
    by (simp add: GY_def Let_def)
qed

lemma mdf_if: "(if b then LEAP_YEAR_FACTORY else COMMON_YEAR_FACTORY) = mdf b"
  by simp

lemma getMonth_eq:
  assumes "1 \<le> sint k" "sint k \<le> 366"
  shows "md_getMonth (mdf lp) k = word_of_int (month_of lp (sint k))"
proof -
  define c :: int where "c = (if lp then 313 else 323)"
  have c: "0 \<le> c" "c \<le> 323" by (simp_all add: c_def)
  have "sint (word_of_int (10 * sint k + c) :: int32) = 10 * sint k + c"
    using assms c by (intro sint32_of_int) simp_all
  then have "sdivw (word_of_int (10 * sint k + c) :: int32) 306 = word_of_int ((10 * sint k + c) div 306)"
    using assms c by (simp add: sdivw_def sdiv_nonneg)
  then show ?thesis
    by (cases lp) (simp_all add: month_of_def word_sless_alt c_def)
qed

lemma array_at_tab:
  assumes "0 \<le> sint m" "sint m \<le> 12"
  shows "array_at (PREVIOUS_MONTH_END_DAY (mdf lp)) m = Some (word_of_int (tab lp (sint m)))"
  using assms
  by (cases lp) (simp_all add: array_at_def tab_def word_sle_eq
      LeapYear_PREVIOUS_MONTH_END_DAY_def CommonYear_PREVIOUS_MONTH_END_DAY_def)

lemma DateComponents_offset_body:
  "DateComponents_offset offset =
     offset_body (if offset <s - 152384
             then (if - 730122 <s offset then JULIAN_FACTORY else PROLEPTIC_JULIAN_FACTORY)
             else GREGORIAN_FACTORY) offset"
  unfolding DateComponents_offset_def offset_body_def Let_def ..

lemma offset_body_eq:
  fixes d :: int32
  assumes y: "y_getYear f d = word_of_int Y"
    and l: "y_getLastJ2000DayOfYear f (word_of_int Y - 1) = word_of_int L"
    and lp: "y_isLeap f (word_of_int Y) = lp"
    and k: "1 \<le> sint d - L" "sint d - L \<le> (if lp then 366 else 365)"
  shows "offset_body f d = Some \<lparr>year = word_of_int Y, month = word_of_int (month_of lp (sint d - L)),
      day = word_of_int (sint d - L - tab lp (month_of lp (sint d - L)))\<rparr>"
proof -
  define k where "k = sint d - L"
  have dk: "d - word_of_int L = word_of_int k" by (simp add: k_def)
  have kk: "1 \<le> k" "k \<le> 366" using k by (simp_all add: k_def split: if_splits)
  have sk: "sint (word_of_int k :: int32) = k" using kk by (intro sint32_of_int) simp_all
  note mp = month_of_props [OF k, folded k_def]
  have m: "md_getMonth (mdf lp) (word_of_int k) = word_of_int (month_of lp k)"
    using getMonth_eq [of "word_of_int k" lp] kk by (simp add: sk)
  have sm: "sint (word_of_int (month_of lp k) :: int32) = month_of lp k"
    using mp by (intro sint32_of_int) simp_all
  have a: "array_at (PREVIOUS_MONTH_END_DAY (mdf lp)) (word_of_int (month_of lp k)) = Some (word_of_int (tab lp (month_of lp k)))"
    using array_at_tab [of "word_of_int (month_of lp k)" lp] mp by (simp add: sm)
  show ?thesis
    unfolding offset_body_def Let_def y l lp mdf_if dk m md_getDay_def a k_def [symmetric]
    by simp
qed

lemma DateComponents_offset_eq: "DateComponents_offset d = Some (mk_date (date_of_day (sint d)))"
proof -
  define D where "D = sint d"
  have D: "- 2147483648 \<le> D" "D \<le> 2147483647" using sint32_range [of d] by (simp_all add: D_def)
  show ?thesis
  proof (cases "D < - 152384")
    case True
    define Y where "Y = JY D"
    have b: "JL (Y - 1) < D" "D \<le> JL Y" using J1 [of D] by (simp_all add: Y_def)
    have k: "1 \<le> sint d - JL (Y - 1)" "sint d - JL (Y - 1) \<le> (if leapJ Y then 366 else 365)"
      using b J2 [of Y] by (simp_all add: D_def split: if_splits)
    have Yr: "- 5877491 \<le> Y" "Y \<le> 1582" using JY_bounds [of D] D True by (simp_all add: Y_def)
    have sY: "sint (word_of_int Y :: int32) = Y" using Yr by (intro sint32_of_int) simp_all
    have sY1: "sint (word_of_int Y - 1 :: int32) = Y - 1"
      using Yr sint32_of_int [of "Y - 1"] by simp
    have dd: "mk_date (date_of_day D) = \<lparr>year = word_of_int Y, month = word_of_int (month_of (leapJ Y) (D - JL (Y - 1))),
      day = word_of_int (D - JL (Y - 1) - tab (leapJ Y) (month_of (leapJ Y) (D - JL (Y - 1))))\<rparr>"
      using True by (simp add: date_of_day_def Y_def Let_def mk_date_def)
    show ?thesis
    proof (cases "- 730122 < D")
      case J: True
      have f: "DateComponents_offset d = offset_body JULIAN_FACTORY d"
        using True J by (simp add: DateComponents_offset_body word_sless_alt D_def)
      have y: "y_getYear JULIAN_FACTORY d = word_of_int Y"
        using getYear_J [of d] J by (simp add: D_def Y_def)
      have "0 \<le> Y - 1" using JY_bounds [of D] J by (simp add: Y_def)
      then have l: "y_getLastJ2000DayOfYear JULIAN_FACTORY (word_of_int Y - 1) = word_of_int (JL (Y - 1))"
        using getLast_J [of "word_of_int Y - 1"] by (simp add: sY1)
      have lp: "y_isLeap JULIAN_FACTORY (word_of_int Y) = leapJ Y" by (simp only: isLeap_J sY)
      show ?thesis unfolding f offset_body_eq [OF y l lp k] D_def [symmetric] dd ..
    next
      case PJ: False
      have f: "DateComponents_offset d = offset_body PROLEPTIC_JULIAN_FACTORY d"
        using True PJ by (simp add: DateComponents_offset_body word_sless_alt D_def)
      have y: "y_getYear PROLEPTIC_JULIAN_FACTORY d = word_of_int Y"
        using getYear_PJ [of d] PJ by (simp add: D_def Y_def)
      have "Y - 1 \<le> - 1" using JY_bounds [of D] PJ by (simp add: Y_def)
      then have l: "y_getLastJ2000DayOfYear PROLEPTIC_JULIAN_FACTORY (word_of_int Y - 1) = word_of_int (JL (Y - 1))"
        using getLast_PJ [of "word_of_int Y - 1"] by (simp add: sY1)
      have lp: "y_isLeap PROLEPTIC_JULIAN_FACTORY (word_of_int Y) = leapJ Y" by (simp only: isLeap_PJ sY)
      show ?thesis unfolding f offset_body_eq [OF y l lp k] D_def [symmetric] dd ..
    qed
  next
    case False
    define Y where "Y = GY D"
    have b: "GL (Y - 1) < D" "D \<le> GL Y" using G1 [of D] by (simp_all add: Y_def)
    have k: "1 \<le> sint d - GL (Y - 1)" "sint d - GL (Y - 1) \<le> (if leapG Y then 366 else 365)"
      using b G2 [of Y] by (simp_all add: D_def split: if_splits)
    have Yr: "1581 \<le> Y" "Y \<le> 5881610" using GE_bounds [of D] D False
      by (simp_all add: Y_def GY_def Let_def)
    have sY: "sint (word_of_int Y :: int32) = Y" using Yr by (intro sint32_of_int) simp_all
    have sY1: "sint (word_of_int Y - 1 :: int32) = Y - 1"
      using Yr sint32_of_int [of "Y - 1"] by simp
    have dd: "mk_date (date_of_day D) = \<lparr>year = word_of_int Y, month = word_of_int (month_of (leapG Y) (D - GL (Y - 1))),
      day = word_of_int (D - GL (Y - 1) - tab (leapG Y) (month_of (leapG Y) (D - GL (Y - 1))))\<rparr>"
      using False by (simp add: date_of_day_def Y_def Let_def mk_date_def)
    have f: "DateComponents_offset d = offset_body GREGORIAN_FACTORY d"
      using False by (simp add: DateComponents_offset_body word_sless_alt D_def)
    have y: "y_getYear GREGORIAN_FACTORY d = word_of_int Y"
      using getYear_G [of d] False by (simp add: D_def Y_def)
    have l: "y_getLastJ2000DayOfYear GREGORIAN_FACTORY (word_of_int Y - 1) = word_of_int (GL (Y - 1))"
      using getLast_G [of "word_of_int Y - 1"] Yr by (simp add: sY1)
    have lp: "y_isLeap GREGORIAN_FACTORY (word_of_int Y) = leapG Y" by (simp only: isLeap_G sY)
    show ?thesis unfolding f offset_body_eq [OF y l lp k] D_def [symmetric] dd ..
  qed
qed

lemma getJ2000Day_body:
  "getJ2000Day dc =
     j2000_body (if year dc <s 1583
             then (if year dc <s 1 then PROLEPTIC_JULIAN_FACTORY
                   else if year dc <s 1582 \<or> month dc <s 10 \<or> (month dc <s 11 \<and> day dc <s 5)
                        then JULIAN_FACTORY else GREGORIAN_FACTORY)
             else GREGORIAN_FACTORY) dc"
  unfolding getJ2000Day_def j2000_body_def Let_def ..

lemma j2000_body_eq:
  assumes l: "y_getLastJ2000DayOfYear f (year dc - 1) = word_of_int L"
    and lp: "y_isLeap f (year dc) = lp"
    and m: "0 \<le> sint (month dc)" "sint (month dc) \<le> 12"
  shows "j2000_body f dc = Some (word_of_int (L + (sint (day dc) + tab lp (sint (month dc)))))"
  unfolding j2000_body_def Let_def l lp mdf_if md_getDayInYear_def array_at_tab [OF m]
  by simp

lemma getJ2000Day_eq:
  assumes y: "- 2147483648 < sint (year dc)" and m: "0 \<le> sint (month dc)" "sint (month dc) \<le> 12"
  shows "getJ2000Day dc = Some (word_of_int (day_of_date (sint (year dc)) (sint (month dc)) (sint (day dc))))"
proof -
  define Y where "Y = sint (year dc)"
  have sY1: "sint (year dc - 1) = Y - 1"
    using y sint32_range [of "year dc"] sint32_of_int [of "sint (year dc) - 1"] by (simp add: Y_def)
  show ?thesis
  proof (cases "julian_regime Y (sint (month dc)) (sint (day dc))")
    case True
    then have dd: "day_of_date Y (sint (month dc)) (sint (day dc))
        = JL (Y - 1) + (sint (day dc) + tab (leapJ Y) (sint (month dc)))"
      by (simp add: day_of_date_def)
    show ?thesis
    proof (cases "Y < 1")
      case PJ: True
      have f: "getJ2000Day dc = j2000_body PROLEPTIC_JULIAN_FACTORY dc"
        using PJ by (simp add: getJ2000Day_body word_sless_alt Y_def)
      have l: "y_getLastJ2000DayOfYear PROLEPTIC_JULIAN_FACTORY (year dc - 1) = word_of_int (JL (Y - 1))"
        using getLast_PJ [of "year dc - 1"] PJ by (simp add: sY1)
      have lp: "y_isLeap PROLEPTIC_JULIAN_FACTORY (year dc) = leapJ Y" by (simp only: isLeap_PJ Y_def)
      show ?thesis unfolding f j2000_body_eq [OF l lp m] Y_def [symmetric] dd ..
    next
      case J: False
      have "year dc <s 1583 \<and> \<not> year dc <s 1 \<and> (year dc <s 1582 \<or> month dc <s 10
          \<or> (month dc <s 11 \<and> day dc <s 5))"
        using J True by (simp add: julian_regime_def word_sless_alt Y_def)
      then have f: "getJ2000Day dc = j2000_body JULIAN_FACTORY dc"
        unfolding getJ2000Day_body
        by (cases "year dc <s 1582"; cases "month dc <s 10"; cases "month dc <s 11"; cases "day dc <s 5"; simp)
      have l: "y_getLastJ2000DayOfYear JULIAN_FACTORY (year dc - 1) = word_of_int (JL (Y - 1))"
        using getLast_J [of "year dc - 1"] J by (simp add: sY1)
      have lp: "y_isLeap JULIAN_FACTORY (year dc) = leapJ Y" by (simp only: isLeap_J Y_def)
      show ?thesis unfolding f j2000_body_eq [OF l lp m] Y_def [symmetric] dd ..
    qed
  next
    case False
    then have dd: "day_of_date Y (sint (month dc)) (sint (day dc))
        = GL (Y - 1) + (sint (day dc) + tab (leapG Y) (sint (month dc)))"
      by (simp add: day_of_date_def)
    from False have Y: "1582 \<le> Y" by (cases "Y < 1582") (simp_all add: julian_regime_def)
    have "\<not> (year dc <s 1583 \<and> (year dc <s 1 \<or> year dc <s 1582 \<or> month dc <s 10
        \<or> (month dc <s 11 \<and> day dc <s 5)))"
      using False by (simp add: julian_regime_def word_sless_alt Y_def)
    then have f: "getJ2000Day dc = j2000_body GREGORIAN_FACTORY dc"
      unfolding getJ2000Day_body
      by (cases "year dc <s 1583"; cases "year dc <s 1"; cases "year dc <s 1582";
          cases "month dc <s 10"; cases "month dc <s 11"; cases "day dc <s 5"; simp)
    have l: "y_getLastJ2000DayOfYear GREGORIAN_FACTORY (year dc - 1) = word_of_int (GL (Y - 1))"
      using getLast_G [of "year dc - 1"] Y by (simp add: sY1)
    have lp: "y_isLeap GREGORIAN_FACTORY (year dc) = leapG Y" by (simp only: isLeap_G Y_def)
    show ?thesis unfolding f j2000_body_eq [OF l lp m] Y_def [symmetric] dd ..
  qed
qed

lemmas eval_simps = getJ2000Day_def DateComponents_ymd_def md_getDayInYear_def array_at_def
    CommonYear_PREVIOUS_MONTH_END_DAY_def LeapYear_PREVIOUS_MONTH_END_DAY_def sdivw_def smodw_def
    signed_divide_int_def signed_modulo_int_def word_sless_alt word_sle_eq Let_def
    DateComponents_offset_def md_getDay_def

lemma MAX_EPOCH_eq: "MAX_EPOCH = Some (DateComponents_ymd 5881610 7 11)"
  by (simp add: MAX_EPOCH_def eval_simps)

lemma MIN_EPOCH_eq: "MIN_EPOCH = Some (DateComponents_ymd (- 5877490) 3 3)"
  by (simp add: MIN_EPOCH_def eval_simps)

lemma in_supported_range_iff:
  "in_supported_range dc \<longleftrightarrow>
     (- 5877490 < sint (year dc) \<or> (sint (year dc) = - 5877490 \<and>
        (3 < sint (month dc) \<or> (sint (month dc) = 3 \<and> 3 \<le> sint (day dc)))))
   \<and> (sint (year dc) < 5881610 \<or> (sint (year dc) = 5881610 \<and>
        (sint (month dc) < 7 \<or> (sint (month dc) = 7 \<and> sint (day dc) \<le> 11))))"
proof -
  have e: "a = b \<longleftrightarrow> sint a = sint b" for a b :: int32 by (rule word_eq_iff_signed)
  have n: "sint (- 5877490 :: int32) = - 5877490" "sint (5881610 :: int32) = 5881610"
    "sint (3 :: int32) = 3" "sint (7 :: int32) = 7" "sint (11 :: int32) = 11" by simp_all
  show ?thesis
    unfolding in_supported_range_def MAX_EPOCH_eq MIN_EPOCH_eq date_lex_le_def DateComponents_ymd_def
      word_sless_alt word_sle_eq e [of "year dc"] e [of _ "year dc"] e [of "month dc"] e [of _ "month dc"]
    by (simp only: n prod.case option.case DateComponents.select_convs eq_commute [of "- 5877490"] eq_commute [of 3] eq_commute [of 5881610] eq_commute [of 7])
qed

lemma leap_min: "\<not> leapJ (- 5877490)" and leap_max: "\<not> leapG 5881610"
  by (simp_all add: leapJ_def leapG_def)

lemma day_of_date_range:
  assumes v: "valid_triple Y m dd"
    and lo: "- 5877490 < Y \<or> (Y = - 5877490 \<and> (3 < m \<or> (m = 3 \<and> 3 \<le> dd)))"
    and hi: "Y < 5881610 \<or> (Y = 5881610 \<and> (m < 7 \<or> (m = 7 \<and> dd \<le> 11)))"
  shows "- 2147483648 \<le> day_of_date Y m dd \<and> day_of_date Y m dd \<le> 2147483647"
proof -
  from v have m: "1 \<le> m" "m \<le> 12" and d: "1 \<le> dd" "dd \<le> tab_next (leap_year Y) m - tab (leap_year Y) m"
    by (simp_all add: valid_triple_def)
  show ?thesis
  proof (cases "julian_regime Y m dd")
    case True
    then have Y: "Y \<le> 1582" by (simp add: julian_regime_def)
    then have lp: "leap_year Y = leapJ Y" by (simp add: leap_year_def)
    define k where "k = dd + tab (leapJ Y) m"
    have D: "day_of_date Y m dd = JL (Y - 1) + k" using True by (simp add: day_of_date_def k_def)
    note t = tab_len_pos [OF m, of "leapJ Y"]
    have k: "1 \<le> k" "k \<le> (if leapJ Y then 366 else 365)" using d t by (simp_all add: k_def lp)
    have "JL (Y - 1) + k \<le> JL Y" using k J2 [of Y] by (simp split: if_splits)
    moreover have "JL Y \<le> JL 1582" using Y by (rule J3)
    ultimately have up: "JL (Y - 1) + k \<le> 2147483647" by (simp add: JL_1582)
    have low: "- 2147483648 \<le> JL (Y - 1) + k"
    proof (cases "Y = - 5877490")
      case y: True
      have "62 \<le> k"
      proof (cases "m = 3")
        case True with lo y show ?thesis by (simp add: k_def leap_min tab_simps)
      next
        case False
        with lo y have "4 \<le> m" by simp
        then have "90 \<le> tab False m" using month_cases [OF m] by (elim disjE; simp add: tab_simps)
        with d y show ?thesis by (simp add: k_def leap_min)
      qed
      with y show ?thesis by (simp add: JL_m5877491)
    next
      case False
      with lo have "JL (- 5877490) \<le> JL (Y - 1)" by (intro J3) simp
      with k show ?thesis by (simp add: JL_m5877490)
    qed
    show ?thesis using up low by (simp add: D)
  next
    case False
    then have Y: "1582 \<le> Y" by (cases "Y < 1582") (simp_all add: julian_regime_def)
    have lp: "leap_year Y = leapG Y"
      using Y by (cases "Y = 1582") (simp_all add: leap_year_def leapJ_1582 leapG_1582)
    define k where "k = dd + tab (leapG Y) m"
    have D: "day_of_date Y m dd = GL (Y - 1) + k" using False by (simp add: day_of_date_def k_def)
    note t = tab_len_pos [OF m, of "leapG Y"]
    have k: "1 \<le> k" "k \<le> tab_next (leapG Y) m" "k \<le> (if leapG Y then 366 else 365)"
      using d t by (simp_all add: k_def lp)
    have "GL 1581 \<le> GL (Y - 1)" using Y by (intro G3) simp
    then have low: "- 2147483648 \<le> GL (Y - 1) + k" using k by (simp add: GL_1581)
    have up: "GL (Y - 1) + k \<le> 2147483647"
    proof (cases "Y = 5881610")
      case y: True
      have "k \<le> 192"
      proof (cases "m = 7")
        case True with hi y show ?thesis by (simp add: k_def leap_max tab_simps)
      next
        case False
        with hi y have "m \<le> 6" by simp
        then have "tab_next False m \<le> 181" using month_cases [OF m] by (elim disjE; simp add: tab_simps)
        with k y show ?thesis by (simp add: leap_max)
      qed
      with y show ?thesis by (simp add: GL_5881609)
    next
      case False
      with hi have "GL Y \<le> GL 5881609" by (intro G3) simp
      moreover have "GL (Y - 1) + k \<le> GL Y" using k G2 [of Y] by (simp split: if_splits)
      ultimately show ?thesis by (simp add: GL_5881609)
    qed
    show ?thesis using up low by (simp add: D)
  qed
qed

lemma mk_date_fields:
  assumes "- 2147483648 \<le> Y" "Y \<le> 2147483647" "valid_triple Y m dd"
  shows "sint (year (mk_date (Y, m, dd))) = Y \<and> sint (month (mk_date (Y, m, dd))) = m
       \<and> sint (day (mk_date (Y, m, dd))) = dd"
proof -
  from assms(3) have m: "1 \<le> m" "m \<le> 12" and d: "1 \<le> dd" "dd \<le> tab_next (leap_year Y) m - tab (leap_year Y) m"
    by (simp_all add: valid_triple_def)
  from tab_len_pos [OF m, of "leap_year Y"] d have "dd \<le> 366" by (simp split: if_splits)
  with assms(1,2) m d show ?thesis by (simp add: mk_date_def sint32_of_int)
qed

lemma date_of_day_year_range:
  assumes "- 2147483648 \<le> D" "D \<le> 2147483647"
  shows "- 5877491 \<le> fst (date_of_day D) \<and> fst (date_of_day D) \<le> 5881610"
proof (cases "D < - 152384")
  case True
  then show ?thesis using JY_bounds [of D] assms by (simp add: date_of_day_def Let_def)
next
  case False
  then show ?thesis using GE_bounds [of D] assms by (simp add: date_of_day_def Let_def GY_def)
qed

lemma offset_then_j2000: "Option.bind (DateComponents_offset d) getJ2000Day = Some d"
proof -
  define D where "D = sint d"
  obtain Y m dd where t: "date_of_day D = (Y, m, dd)" by (cases "date_of_day D")
  have r: "- 2147483648 \<le> D" "D \<le> 2147483647" using sint32_range [of d] by (simp_all add: D_def)
  from day_of_date_of_day [of D] have v: "valid_triple Y m dd" and dd: "day_of_date Y m dd = D"
    by (simp_all add: t)
  from date_of_day_year_range [OF r] have Y: "- 5877491 \<le> Y" "Y \<le> 5881610" by (simp_all add: t)
  then have "- 2147483648 \<le> Y" "Y \<le> 2147483647" by simp_all
  from mk_date_fields [OF this v]
  have f: "sint (year (mk_date (Y, m, dd))) = Y" "sint (month (mk_date (Y, m, dd))) = m"
    "sint (day (mk_date (Y, m, dd))) = dd" by simp_all
  from v have m: "1 \<le> m" "m \<le> 12" by (simp_all add: valid_triple_def)
  have "getJ2000Day (mk_date (Y, m, dd)) = Some (word_of_int (day_of_date Y m dd))"
    using getJ2000Day_eq [of "mk_date (Y, m, dd)"] Y m by (simp add: f)
  then show ?thesis by (simp add: DateComponents_offset_eq D_def [symmetric] t dd) (simp add: D_def)
qed

lemma j2000_then_offset:
  assumes v: "valid_date dc" and r: "in_supported_range dc"
  shows "\<exists>j. getJ2000Day dc = Some j \<and> sint j = day_of_date (sint (year dc)) (sint (month dc)) (sint (day dc))
     \<and> DateComponents_offset j = Some dc"
proof -
  define Y m dd where "Y = sint (year dc)" and "m = sint (month dc)" and "dd = sint (day dc)"
  from v have vt: "valid_triple Y m dd" by (simp add: valid_date_def Y_def m_def dd_def)
  from r have lo: "- 5877490 < Y \<or> (Y = - 5877490 \<and> (3 < m \<or> (m = 3 \<and> 3 \<le> dd)))"
    and hi: "Y < 5881610 \<or> (Y = 5881610 \<and> (m < 7 \<or> (m = 7 \<and> dd \<le> 11)))"
    unfolding in_supported_range_iff Y_def m_def dd_def by simp_all
  from vt have mr: "1 \<le> m" "m \<le> 12" by (simp_all add: valid_triple_def)
  from lo have Y: "- 2147483648 < Y" by linarith
  define D where "D = day_of_date Y m dd"
  from day_of_date_range [OF vt lo hi] have Dr: "- 2147483648 \<le> D" "D \<le> 2147483647" by (simp_all add: D_def)
  have j: "getJ2000Day dc = Some (word_of_int D)"
    using getJ2000Day_eq [of dc] Y mr by (simp add: Y_def m_def dd_def D_def)
  have sD: "sint (word_of_int D :: int32) = D" using Dr by (rule sint32_of_int)
  have "date_of_day D = (Y, m, dd)" unfolding D_def by (rule date_of_day_of_date [OF vt])
  then have "DateComponents_offset (word_of_int D) = Some (mk_date (Y, m, dd))"
    by (simp only: DateComponents_offset_eq sD)
  moreover have "mk_date (Y, m, dd) = dc" by (simp add: mk_date_def Y_def m_def dd_def)
  ultimately show ?thesis using j sD by (simp add: D_def Y_def m_def dd_def)
qed

subsection \<open>ISO weeks on unbounded integers\<close>

lemma jan1_eq: "jan1 Y = (if Y < 1583 then JL (Y - 1) else GL (Y - 1)) + 1"
  by (simp add: jan1_def day_of_date_def julian_regime_def tab_simps)

lemma jan1_step:
  "355 \<le> jan1 (Y + 1) - jan1 Y \<and> jan1 (Y + 1) - jan1 Y \<le> 366
   \<and> (Y \<noteq> 1582 \<longrightarrow> 365 \<le> jan1 (Y + 1) - jan1 Y)"
proof (cases "Y < 1582")
  case True
  then show ?thesis using J2 [of Y] by (simp add: jan1_eq split: if_splits)
next
  case False
  show ?thesis
  proof (cases "Y = 1582")
    case True
    then show ?thesis by (simp add: jan1_eq JL_1581 GL_1582)
  next
    case False
    with \<open>\<not> Y < 1582\<close> show ?thesis using G2 [of Y] by (simp add: jan1_eq split: if_splits)
  qed
qed

lemma jan1_mono: "a \<le> b \<Longrightarrow> jan1 a \<le> jan1 b"
proof (induction b rule: int_ge_induct)
  case base show ?case by simp
next
  case (step b)
  from jan1_step [of b] step show ?case by simp
qed

lemma jan1_strict: "a < b \<Longrightarrow> jan1 a + 355 \<le> jan1 b"
  using jan1_mono [of "a + 1" b] jan1_step [of a] by simp

lemma fwm_int_near: "jan1 Y - 3 \<le> fwm_int Y \<and> fwm_int Y \<le> jan1 Y + 3"
proof -
  have "0 \<le> (jan1 Y + 1) mod 7" "(jan1 Y + 1) mod 7 < 7" by simp_all
  then show ?thesis by (simp add: fwm_int_def)
qed

lemma fwm_int_monday: "fwm_int Y mod 7 = 2"
  unfolding fwm_int_def by presburger

lemma first_monday_formula:
  fixes x :: int
  shows "x + (4 - (x + 2) smod 7) + (if 3 < 4 - (x + 2) smod 7 then - 7 else 0)
       = x + 3 - (x + 1) mod 7"
proof (cases "0 \<le> x + 2")
  case True
  then have "(x + 2) smod 7 = (x + 2) mod 7" by (simp add: smod_nonneg)
  then show ?thesis by presburger
next
  case False
  then have "(x + 2) smod 7 = - ((- (x + 2)) mod 7)" by (simp add: smod_neg)
  then show ?thesis by presburger
qed

lemma day_of_week_formula:
  fixes x :: int
  shows "(let dow = (x + 6) smod 7 in if dow < 1 then dow + 7 else dow) = (x + 5) mod 7 + 1"
proof (cases "0 \<le> x + 6")
  case True
  then have "(x + 6) smod 7 = (x + 6) mod 7" by (simp add: smod_nonneg)
  then show ?thesis unfolding Let_def by presburger
next
  case False
  then have "(x + 6) smod 7 = - ((- (x + 6)) mod 7)" by (simp add: smod_neg)
  then show ?thesis unfolding Let_def by presburger
qed

lemma julian_1582_day:
  assumes j: "julian_regime 1582 m dd" and m: "1 \<le> m" "m \<le> 12"
    and d: "dd + tab False m \<le> tab_next False m"
  shows "dd + tab False m \<le> 277"
proof -
  from j have "m < 10 \<or> (m < 11 \<and> dd < 5)" by (simp add: julian_regime_def)
  then show ?thesis
  proof
    assume "m < 10"
    then have "tab_next False m \<le> 273" using month_cases [OF m] by (elim disjE; simp add: tab_simps)
    with d show ?thesis by simp
  next
    assume a: "m < 11 \<and> dd < 5"
    show ?thesis
    proof (cases "m = 10")
      case True with a show ?thesis by (simp add: tab_10)
    next
      case False
      with a have "m < 10" by simp
      then have "tab_next False m \<le> 273" using month_cases [OF m] by (elim disjE; simp add: tab_simps)
      with d show ?thesis by simp
    qed
  qed
qed

lemma gregorian_1582_day:
  assumes j: "\<not> julian_regime 1582 m dd" and m: "1 \<le> m" "m \<le> 12" and d: "1 \<le> dd"
    and gap: "\<not> (m = 10 \<and> 5 \<le> dd \<and> dd \<le> 14)"
  shows "288 \<le> dd + tab False m"
proof -
  from j have n: "\<not> m < 10" "\<not> (m < 11 \<and> dd < 5)" by (simp_all add: julian_regime_def)
  show ?thesis
  proof (cases "m = 10")
    case True
    with n gap have "15 \<le> dd" by simp
    with True show ?thesis by (simp add: tab_10)
  next
    case False
    with n have "11 \<le> m" by simp
    then have "304 \<le> tab False m" using month_cases [OF m] by (elim disjE; simp add: tab_simps)
    with d show ?thesis by simp
  qed
qed

lemma year_bracket:
  assumes v: "valid_triple Y m dd"
  shows "jan1 Y \<le> day_of_date Y m dd \<and> day_of_date Y m dd < jan1 (Y + 1)"
proof -
  from v have m: "1 \<le> m" "m \<le> 12" and d: "1 \<le> dd" "dd \<le> tab_next (leap_year Y) m - tab (leap_year Y) m"
    and gap: "\<not> (Y = 1582 \<and> m = 10 \<and> 5 \<le> dd \<and> dd \<le> 14)"
    by (simp_all add: valid_triple_def)
  show ?thesis
  proof (cases "julian_regime Y m dd")
    case True
    then have Y: "Y \<le> 1582" by (simp add: julian_regime_def)
    then have lp: "leap_year Y = leapJ Y" by (simp add: leap_year_def)
    define k where "k = dd + tab (leapJ Y) m"
    have D: "day_of_date Y m dd = JL (Y - 1) + k" using True by (simp add: day_of_date_def k_def)
    note t = tab_len_pos [OF m, of "leapJ Y"]
    have k: "1 \<le> k" "k \<le> tab_next (leapJ Y) m" "k \<le> (if leapJ Y then 366 else 365)"
      using d t by (simp_all add: k_def lp)
    have up: "JL (Y - 1) + k \<le> JL Y" using k J2 [of Y] by (simp split: if_splits)
    have "JL (Y - 1) + k < jan1 (Y + 1)"
    proof (cases "Y = 1582")
      case False
      with Y up show ?thesis by (simp add: jan1_eq)
    next
      case y: True
      have "julian_regime 1582 m dd" "dd + tab False m \<le> tab_next False m"
        using True k(2) y by (simp_all add: k_def leapJ_1582)
      then have "dd + tab False m \<le> 277" using m by (intro julian_1582_day) simp_all
      then have "k \<le> 277" using y by (simp add: k_def leapJ_1582)
      with y show ?thesis by (simp add: jan1_eq JL_1581 GL_1582)
    qed
    with k Y show ?thesis by (simp add: D jan1_eq)
  next
    case False
    then have Y: "1582 \<le> Y" by (cases "Y < 1582") (simp_all add: julian_regime_def)
    have lp: "leap_year Y = leapG Y"
      using Y by (cases "Y = 1582") (simp_all add: leap_year_def leapJ_1582 leapG_1582)
    define k where "k = dd + tab (leapG Y) m"
    have D: "day_of_date Y m dd = GL (Y - 1) + k" using False by (simp add: day_of_date_def k_def)
    note t = tab_len_pos [OF m, of "leapG Y"]
    have k: "1 \<le> k" "k \<le> (if leapG Y then 366 else 365)" using d t by (simp_all add: k_def lp)
    have up: "GL (Y - 1) + k \<le> GL Y" using k G2 [of Y] by (simp split: if_splits)
    have "jan1 Y \<le> GL (Y - 1) + k"
    proof (cases "Y = 1582")
      case False
      with Y k show ?thesis by (simp add: jan1_eq)
    next
      case True
      have "\<not> julian_regime 1582 m dd" "\<not> (m = 10 \<and> 5 \<le> dd \<and> dd \<le> 14)"
        using False gap True by simp_all
      then have "288 \<le> dd + tab False m" using m d(1) by (intro gregorian_1582_day) simp_all
      then have "288 \<le> k" using True by (simp add: k_def leapG_1582)
      with True show ?thesis by (simp add: jan1_eq JL_1581 GL_1581)
    qed
    with up Y show ?thesis by (simp add: D jan1_eq)
  qed
qed


subsection \<open>The 32-bit week functions compute the integer formulas\<close>

lemma sint_add32:
  fixes a b :: int32
  assumes "- 2147483648 \<le> sint a + sint b" "sint a + sint b \<le> 2147483647"
  shows "sint (a + b) = sint a + sint b"
proof -
  have "a + b = word_of_int (sint a + sint b)" by simp
  then show ?thesis using assms sint32_of_int [of "sint a + sint b"] by simp
qed

lemma sint_sub32:
  fixes a b :: int32
  assumes "- 2147483648 \<le> sint a - sint b" "sint a - sint b \<le> 2147483647"
  shows "sint (a - b) = sint a - sint b"
proof -
  have "a - b = word_of_int (sint a - sint b)" by simp
  then show ?thesis using assms sint32_of_int [of "sint a - sint b"] by simp
qed

lemma jan1_min: "jan1 (- 5877489) = - 2147483344" and jan1_max: "jan1 5881610 = 2147483456"
  by (simp_all add: jan1_eq JL_m5877490 GL_5881609)

lemma jan1_range:
  assumes "- 5877489 \<le> Y" "Y \<le> 5881610"
  shows "- 2147483344 \<le> jan1 Y \<and> jan1 Y \<le> 2147483456"
  using jan1_mono [OF assms(1)] jan1_mono [OF assms(2)] by (simp add: jan1_min jan1_max)

lemma getJ2000Day_jan1:
  assumes "- 5877489 \<le> Y" "Y \<le> 5881610"
  shows "getJ2000Day (DateComponents_ymd (word_of_int Y) 1 1) = Some (word_of_int (jan1 Y))"
proof -
  have sY: "sint (word_of_int Y :: int32) = Y" using assms by (intro sint32_of_int) simp_all
  show ?thesis
    using getJ2000Day_eq [of "DateComponents_ymd (word_of_int Y) 1 1"] assms
    by (simp add: DateComponents_ymd_def sY jan1_def)
qed

lemma getFirstWeekMonday_eq:
  assumes "- 5877489 \<le> Y" "Y \<le> 5881610"
  shows "getFirstWeekMonday (word_of_int Y) = Some (word_of_int (fwm_int Y))"
proof -
  define J where "J = jan1 Y"
  define r where "r = (J + 2) smod 7"
  have Jr: "- 2147483344 \<le> J" "J \<le> 2147483456" using jan1_range [OF assms] by (simp_all add: J_def)
  have r: "- 7 < r" "r < 7" using smod_bound [of 7 "J + 2"] by (simp_all add: r_def)
  have s2: "sint (word_of_int J + 2 :: int32) = J + 2"
    using Jr sint32_of_int [of "J + 2"] by simp
  have m: "smodw (word_of_int J + 2 :: int32) 7 = word_of_int r"
    by (simp add: smodw_def s2 r_def)
  have so: "sint (4 - word_of_int r :: int32) = 4 - r"
    using r sint32_of_int [of "4 - r"] by simp
  have "word_of_int J + (4 - word_of_int r) + (if 3 <s (4 - word_of_int r :: int32) then - 7 else 0)
      = (word_of_int (J + (4 - r) + (if 3 < 4 - r then - 7 else 0)) :: int32)"
    by (simp add: word_sless_alt so)
  also have "J + (4 - r) + (if 3 < 4 - r then - 7 else 0) = fwm_int Y"
    unfolding r_def using first_monday_formula [of J] by (simp add: fwm_int_def J_def)
  finally show ?thesis
    by (simp add: getFirstWeekMonday_def getJ2000Day_jan1 [OF assms] J_def [symmetric] m Let_def)
qed

lemma fwm_int_range:
  assumes "- 5877489 \<le> Y" "Y \<le> 5881610"
  shows "- 2147483347 \<le> fwm_int Y \<and> fwm_int Y \<le> 2147483459"
  using jan1_range [OF assms] fwm_int_near [of Y] by simp

lemma sint_fwm_int:
  assumes "- 5877489 \<le> Y" "Y \<le> 5881610"
  shows "sint (word_of_int (fwm_int Y) :: int32) = fwm_int Y"
  using fwm_int_range [OF assms] by (intro sint32_of_int) simp_all

lemma getDayOfWeek_eq:
  assumes j: "getJ2000Day dc = Some j" and r: "sint j \<le> 2147483641"
  shows "getDayOfWeek dc = Some (word_of_int ((sint j + 5) mod 7 + 1))"
proof -
  define q where "q = (sint j + 6) smod 7"
  have q: "- 7 < q" "q < 7" using smod_bound [of 7 "sint j + 6"] by (simp_all add: q_def)
  have s6: "sint (j + 6) = sint j + 6"
    using r sint32_range [of j] sint_add32 [of j 6] by simp
  have m: "smodw (j + 6) 7 = word_of_int q" by (simp add: smodw_def s6 q_def)
  have sq: "sint (word_of_int q :: int32) = q" using q by (intro sint32_of_int) simp_all
  have "(let dow = word_of_int q :: int32 in if dow <s 1 then dow + 7 else dow)
      = word_of_int (let dow = q in if dow < 1 then dow + 7 else dow)"
    by (simp add: Let_def word_sless_alt sq)
  also have "(let dow = q in if dow < 1 then dow + 7 else dow) = (sint j + 5) mod 7 + 1"
    unfolding q_def by (rule day_of_week_formula)
  finally show ?thesis by (simp add: getDayOfWeek_def j m)
qed

lemma sdivw7:
  fixes a :: int32
  assumes "0 \<le> sint a"
  shows "1 + sdivw a 7 = word_of_int (1 + sint a div 7)"
  using assms by (simp add: sdivw_def sdiv_nonneg)

lemma getCalendarWeek_same_year:
  assumes f: "getFirstWeekMonday (year dc) = Some f" and j: "getJ2000Day dc = Some j"
    and r: "0 \<le> sint j - sint f" "sint j - sint f \<le> 363"
  shows "getCalendarWeek dc = Some (word_of_int (1 + (sint j - sint f) div 7))"
proof -
  have s: "sint (j - f) = sint j - sint f" using r by (intro sint_sub32) simp_all
  show ?thesis
    using r by (simp add: getCalendarWeek_def f j Let_def word_sless_alt s sdivw7)
qed

lemma getCalendarWeek_previous_year:
  assumes f: "getFirstWeekMonday (year dc) = Some f" and j: "getJ2000Day dc = Some j"
    and p: "getFirstWeekMonday (year dc - 1) = Some p"
    and r: "- 10 \<le> sint j - sint f" "sint j - sint f < 0"
      "0 \<le> sint j - sint p" "sint f - sint p \<le> 400" "0 \<le> sint f - sint p"
  shows "getCalendarWeek dc = Some (word_of_int (1 + (sint j - sint p) div 7))"
proof -
  have s: "sint (j - f) = sint j - sint f" using r by (intro sint_sub32) simp_all
  have t: "sint (f - p) = sint f - sint p" using r by (intro sint_sub32) simp_all
  have u: "sint (j - p) = sint j - sint p" using r by (intro sint_sub32) simp_all
  have "0 \<le> sint (j - p)" using r by (simp add: u)
  from sdivw7 [OF this] show ?thesis
    using r by (simp add: getCalendarWeek_def f j p Let_def word_sless_alt s u)
qed

lemma getCalendarWeek_next_year:
  assumes f: "getFirstWeekMonday (year dc) = Some f" and j: "getJ2000Day dc = Some j"
    and n: "getFirstWeekMonday (year dc + 1) = Some n"
    and r: "363 < sint j - sint f" "sint j - sint f \<le> 400" "0 \<le> sint n - sint f" "sint n - sint f \<le> 400"
  shows "getCalendarWeek dc = Some (word_of_int (1 + (if sint n - sint f \<le> sint j - sint f
            then sint j - sint n else sint j - sint f) div 7))"
proof -
  have s: "sint (j - f) = sint j - sint f" using r by (intro sint_sub32) simp_all
  have t: "sint (n - f) = sint n - sint f" using r by (intro sint_sub32) simp_all
  show ?thesis
  proof (cases "sint n - sint f \<le> sint j - sint f")
    case True
    have u: "sint (j - n) = sint j - sint n" using r True by (intro sint_sub32) simp_all
    have "0 \<le> sint (j - n)" using True by (simp add: u)
    from sdivw7 [OF this] show ?thesis
      using r True by (simp add: getCalendarWeek_def f j n Let_def word_sless_alt word_sle_eq s t u)
  next
    case False
    have "0 \<le> sint (j - f)" using r by (simp add: s)
    from sdivw7 [OF this] show ?thesis
      using r False by (simp add: getCalendarWeek_def f j n Let_def word_sless_alt word_sle_eq s t)
  qed
qed


subsection \<open>Week dates\<close>

lemma mondays_apart:
  fixes x y :: int
  assumes "x mod 7 = 2" "y mod 7 = 2" "359 \<le> x - y"
  shows "364 \<le> x - y"
  using assms by presburger

lemma week_index:
  fixes wk dw :: int
  assumes "1 \<le> dw" "dw \<le> 7"
  shows "1 + (7 * wk + dw - 8) div 7 = wk"
proof -
  have "(7 * wk + dw - 8) div 7 = wk - 1"
    by (rule int_div_pos_eq [where r = "dw - 1"]) (use assms in simp_all)
  then show ?thesis by simp
qed

lemma week_day_index:
  fixes F wk dw :: int
  assumes "F mod 7 = 2" "1 \<le> dw" "dw \<le> 7"
  shows "(F + 7 * wk + dw - 8 + 5) mod 7 + 1 = dw"
  using assms by presburger

lemma fwm_1583: "jan1 1583 \<le> fwm_int 1583"
  and fwm_min: "jan1 (- 5877489) \<le> fwm_int (- 5877489)"
  by (simp_all add: fwm_int_def jan1_eq GL_1582 JL_m5877490)

lemma week_year_length:
  "fwm_int (Y + 1) - fwm_int Y \<le> 372 \<and> 0 \<le> fwm_int (Y + 1) - fwm_int Y
   \<and> (Y \<noteq> 1582 \<longrightarrow> 364 \<le> fwm_int (Y + 1) - fwm_int Y)"
proof -
  note s = jan1_step [of Y] and a = fwm_int_near [of Y] and b = fwm_int_near [of "Y + 1"]
  have "364 \<le> fwm_int (Y + 1) - fwm_int Y" if "Y \<noteq> 1582"
  proof -
    have "359 \<le> fwm_int (Y + 1) - fwm_int Y" using s a b that by simp
    with fwm_int_monday [of "Y + 1"] fwm_int_monday [of Y] show ?thesis by (rule mondays_apart)
  qed
  then show ?thesis using s a b by simp
qed

text \<open>The calendar year of a day in week-year \<open>wY\<close> is \<open>wY - 1\<close>, \<open>wY\<close> or \<open>wY + 1\<close>.\<close>

lemma week_year_neighbours:
  assumes D: "fwm_int wY \<le> D" "D < fwm_int (wY + 1)" and Y: "jan1 Y \<le> D" "D < jan1 (Y + 1)"
  shows "Y = wY - 1 \<or> Y = wY \<or> Y = wY + 1"
proof -
  have "\<not> wY + 2 \<le> Y"
  proof
    assume "wY + 2 \<le> Y"
    then have "jan1 (wY + 2) \<le> jan1 Y" by (rule jan1_mono)
    moreover have "jan1 (wY + 1) + 355 \<le> jan1 (wY + 2)" by (rule jan1_strict) simp
    ultimately show False using D Y fwm_int_near [of "wY + 1"] by simp
  qed
  moreover have "\<not> Y + 1 \<le> wY - 1"
  proof
    assume "Y + 1 \<le> wY - 1"
    then have "jan1 (Y + 1) \<le> jan1 (wY - 1)" by (rule jan1_mono)
    moreover have "jan1 (wY - 1) + 355 \<le> jan1 wY" by (rule jan1_strict) simp
    ultimately show False using D Y fwm_int_near [of wY] by simp
  qed
  ultimately show ?thesis by linarith
qed

lemma week_components:
  assumes wYr: "- 5877489 \<le> sint wYear" "sint wYear \<le> 5881609"
    and wr: "week_in_range wYear week"
    and dwr: "1 \<le> sint dayOfWeek" "sint dayOfWeek \<le> 7"
  shows "\<exists>dc. createFromWeekComponents wYear week dayOfWeek = Some dc
           \<and> getCalendarWeek dc = Some week \<and> getDayOfWeek dc = Some dayOfWeek"
proof -
  define wY wk dw where "wY = sint wYear" and "wk = sint week" and "dw = sint dayOfWeek"
  define F0 F1 where "F0 = fwm_int wY" and "F1 = fwm_int (wY + 1)"
  have wY: "- 5877489 \<le> wY" "wY \<le> 5881609" using wYr by (simp_all add: wY_def)
  have dw: "1 \<le> dw" "dw \<le> 7" using dwr by (simp_all add: dw_def)
  have w0: "wYear = word_of_int wY" and w1: "wYear + 1 = word_of_int (wY + 1)"
    by (simp_all add: wY_def)
  have f0: "getFirstWeekMonday wYear = Some (word_of_int F0)"
    unfolding w0 F0_def using wY by (intro getFirstWeekMonday_eq) simp_all
  have f1: "getFirstWeekMonday (wYear + 1) = Some (word_of_int F1)"
    unfolding w1 F1_def using wY by (intro getFirstWeekMonday_eq) simp_all
  have F0r: "- 2147483347 \<le> F0" "F0 \<le> 2147483459"
    using fwm_int_range [of wY] wY by (simp_all add: F0_def)
  have F1r: "- 2147483347 \<le> F1" "F1 \<le> 2147483459"
    using fwm_int_range [of "wY + 1"] wY by (simp_all add: F1_def)
  have sF0: "sint (word_of_int F0 :: int32) = F0" using F0r by (intro sint32_of_int) simp_all
  have sF1: "sint (word_of_int F1 :: int32) = F1" using F1r by (intro sint32_of_int) simp_all
  note len = week_year_length [of wY, folded F0_def F1_def]
  have sd: "sint (word_of_int F1 - word_of_int F0 :: int32) = F1 - F0"
    using len sint_sub32 [of "word_of_int F1 :: int32" "word_of_int F0"] by (simp add: sF0 sF1)
  have nw: "sdivw (word_of_int F1 - word_of_int F0 :: int32) 7 = word_of_int ((F1 - F0) div 7)"
    using len by (simp add: sdivw_def sd sdiv_nonneg)
  have "0 \<le> (F1 - F0) div 7" using len by (simp add: pos_imp_zdiv_nonneg_iff)
  moreover have "(F1 - F0) div 7 \<le> 372 div 7" using len by (intro zdiv_mono1) simp_all
  ultimately have sn: "sint (word_of_int ((F1 - F0) div 7) :: int32) = (F1 - F0) div 7"
    by (intro sint32_of_int) simp_all
  from wr have wk: "1 \<le> wk" "wk \<le> (F1 - F0) div 7"
    by (simp_all add: week_in_range_def weeks_in_week_year_def f0 f1 nw word_sle_eq sn wk_def)
  have "7 * ((F1 - F0) div 7) \<le> F1 - F0" by simp
  with wk have wk7: "7 * wk \<le> F1 - F0" by linarith
  define D where "D = F0 + 7 * wk + dw - 8"
  have Db: "F0 \<le> D" "D < F1" using wk wk7 dw by (simp_all add: D_def)
  have Dr: "- 2147483648 \<le> D" "D \<le> 2147483641" using Db F0r F1r by simp_all
  have sD: "sint (word_of_int D :: int32) = D" using Dr by (intro sint32_of_int) simp_all
  have wD: "word_of_int F0 + (7 * week + dayOfWeek - 8) = (word_of_int D :: int32)"
    by (simp add: D_def wk_def dw_def)
  obtain Y m dd where t: "date_of_day D = (Y, m, dd)" by (cases "date_of_day D")
  define dc where "dc = mk_date (Y, m, dd)"
  have od: "DateComponents_offset (word_of_int D) = Some dc"
    by (simp add: DateComponents_offset_eq sD t dc_def)
  have j0: "Option.bind (DateComponents_offset (word_of_int F0)) getJ2000Day = Some (word_of_int F0)"
    by (rule offset_then_j2000)
  then obtain e0 where e0: "DateComponents_offset (word_of_int F0) = Some e0"
    "getJ2000Day e0 = Some (word_of_int F0)"
    by (cases "DateComponents_offset (word_of_int F0 :: int32)") simp_all
  have c: "createFromWeekComponents wYear week dayOfWeek = Some dc"
    by (simp add: createFromWeekComponents_def f0 e0 DateComponents_epoch_def wD od)
  have jd: "getJ2000Day dc = Some (word_of_int D)"
    using offset_then_j2000 [of "word_of_int D"] by (simp add: od)
  from day_of_date_of_day [of D] have v: "valid_triple Y m dd" and dd: "day_of_date Y m dd = D"
    by (simp_all add: t)
  from year_bracket [OF v] have Yb: "jan1 Y \<le> D" "D < jan1 (Y + 1)" by (simp_all add: dd)
  have yd: "year dc = word_of_int Y" by (simp add: dc_def mk_date_def)
  have yd1: "year dc + 1 = word_of_int (Y + 1)" and ydm: "year dc - 1 = word_of_int (Y - 1)"
    by (simp_all add: yd)
  have nb: "Y = wY - 1 \<or> Y = wY \<or> Y = wY + 1"
    using Db Yb by (intro week_year_neighbours) (simp_all add: F0_def F1_def)
  have "getDayOfWeek dc = Some (word_of_int ((D + 5) mod 7 + 1))"
    using getDayOfWeek_eq [OF jd] Dr by (simp add: sD)
  also have "(D + 5) mod 7 + 1 = dw"
    unfolding D_def using fwm_int_monday [of wY] dw by (intro week_day_index) (simp_all add: F0_def)
  finally have dow: "getDayOfWeek dc = Some dayOfWeek" by (simp add: dw_def)
  have wi: "1 + (D - F0) div 7 = wk"
    using week_index [OF dw, of wk] by (simp add: D_def algebra_simps)
  have "getCalendarWeek dc = Some (word_of_int wk)"
  proof -
    from nb consider (prev) "Y = wY - 1" | (same) "Y = wY" | (nxt) "Y = wY + 1" by blast
    then show ?thesis
    proof cases
      case same
      have fy: "getFirstWeekMonday (year dc) = Some (word_of_int F0)"
        using f0 by (simp add: yd same w0)
      show ?thesis
      proof (cases "D - F0 \<le> 363")
        case True
        from getCalendarWeek_same_year [OF fy jd] True Db show ?thesis by (simp add: sD sF0 wi)
      next
        case False
        have fn: "getFirstWeekMonday (year dc + 1) = Some (word_of_int F1)"
          using f1 by (simp add: yd same w0)
        from getCalendarWeek_next_year [OF fy jd fn] False Db len show ?thesis
          by (simp add: sD sF0 sF1 wi)
      qed
    next
      case nxt
      have fy: "getFirstWeekMonday (year dc) = Some (word_of_int F1)"
        using f1 by (simp add: yd nxt w0)
      have fp: "getFirstWeekMonday (year dc - 1) = Some (word_of_int F0)"
        using f0 by (simp add: yd nxt w0)
      have "F1 - 3 \<le> D" using Yb fwm_int_near [of "wY + 1"] by (simp add: nxt F1_def)
      with getCalendarWeek_previous_year [OF fy jd fp] Db len show ?thesis
        by (simp add: sD sF0 sF1 wi)
    next
      case prev
      have lt: "F0 < jan1 wY" using Db Yb by (simp add: prev)
      have n1: "wY \<noteq> - 5877489" using lt fwm_min by (auto simp: F0_def)
      have n2: "wY \<noteq> 1583" using lt fwm_1583 by (auto simp: F0_def)
      have Yr: "- 5877489 \<le> Y" "Y \<le> 5881610" using wY n1 by (simp_all add: prev)
      define Fp where "Fp = fwm_int Y"
      have fy: "getFirstWeekMonday (year dc) = Some (word_of_int Fp)"
        unfolding yd Fp_def using Yr by (intro getFirstWeekMonday_eq) simp_all
      have fn: "getFirstWeekMonday (year dc + 1) = Some (word_of_int F0)"
        using f0 by (simp add: yd prev w0)
      have sFp: "sint (word_of_int Fp :: int32) = Fp"
        unfolding Fp_def using Yr by (intro sint_fwm_int) simp_all
      have l: "364 \<le> F0 - Fp" "F0 - Fp \<le> 372"
        using week_year_length [of Y] n2 by (simp_all add: prev Fp_def F0_def)
      have "D < F0 + 3" using lt Yb fwm_int_near [of wY] by (simp add: prev F0_def)
      with getCalendarWeek_next_year [OF fy jd fn] Db l
      have g: "getCalendarWeek dc = Some (word_of_int (1 + (D - F0) div 7))"
        by (simp add: sD sF0 sFp)
      show ?thesis unfolding g wi ..
    qed
  qed
  then have "getCalendarWeek dc = Some week" by (simp add: wk_def)
  with c dow show ?thesis by blast
qed

lemmas week_eval_simps = getFirstWeekMonday_def getCalendarWeek_def getDayOfWeek_def
  createFromWeekComponents_def DateComponents_epoch_def


subsection \<open>Rounding to double precision\<close>

lemma rne_error: "\<bar>of_int (rne x) - x\<bar> \<le> 1 / 2"
proof -
  have "of_int \<lfloor>x\<rfloor> \<le> x" "x < of_int \<lfloor>x\<rfloor> + 1" by linarith+
  then show ?thesis by (simp add: rne_def Let_def)
qed

lemma rne_of_int: "rne (of_int k) = k"
  by (simp add: rne_def)

lemma rne_minus: "rne (- x) = - rne x"
proof (cases "x = of_int \<lfloor>x\<rfloor>")
  case True
  then obtain k where "x = of_int k" ..
  then show ?thesis using rne_of_int [of "- k"] by (simp add: rne_of_int)
next
  case False
  define f where "f = \<lfloor>x\<rfloor>"
  define r where "r = x - of_int f"
  have b: "of_int f < x" "x < of_int f + 1" using False by (simp_all add: f_def) linarith+
  have r: "0 < r" "r < 1" using b by (simp_all add: r_def)
  have fm: "\<lfloor>- x\<rfloor> = - f - 1" using b by (intro floor_unique) simp_all
  have rm: "- x - of_int (- f - 1) = 1 - r" by (simp add: r_def)
  have ev: "even (- f - 1) \<longleftrightarrow> odd f" by simp
  have p: "rne x = (if r < 1 / 2 then f else if 1 / 2 < r then f + 1 else if even f then f else f + 1)"
    by (simp add: rne_def Let_def f_def r_def)
  have m: "rne (- x) = (if 1 - r < 1 / 2 then - f - 1 else if 1 / 2 < 1 - r then - f
      else if odd f then - f - 1 else - f)"
    unfolding rne_def Let_def fm rm ev by simp
  show ?thesis
  proof (cases "r < 1 / 2")
    case True
    then show ?thesis unfolding p m by simp
  next
    case False
    show ?thesis
    proof (cases "1 / 2 < r")
      case True
      then show ?thesis unfolding p m by simp
    next
      case h: False
      with False have "r = 1 / 2" by simp
      then show ?thesis unfolding p m by simp
    qed
  qed
qed


lemma quantum_minus: "quantum (- x) = quantum x"
  by (simp add: quantum_def)

lemma round_real_minus: "round_real (- x) = - round_real x"
  by (simp add: round_real_def quantum_minus rne_minus)

lemma floor_log2_bounds:
  assumes "x \<noteq> 0"
  shows "2 powr of_int \<lfloor>log 2 \<bar>x\<bar>\<rfloor> \<le> \<bar>x\<bar>" "\<bar>x\<bar> < 2 powr (of_int \<lfloor>log 2 \<bar>x\<bar>\<rfloor> + 1)"
proof -
  have "0 < \<bar>x\<bar>" using assms by simp
  then have "2 powr of_int \<lfloor>log 2 \<bar>x\<bar>\<rfloor> \<le> \<bar>x\<bar> \<and> \<bar>x\<bar> < 2 powr (of_int \<lfloor>log 2 \<bar>x\<bar>\<rfloor> + 1)"
    using floor_log_eq_powr_iff [of "\<bar>x\<bar>" 2 "\<lfloor>log 2 \<bar>x\<bar>\<rfloor>"] by simp
  then show "2 powr of_int \<lfloor>log 2 \<bar>x\<bar>\<rfloor> \<le> \<bar>x\<bar>" "\<bar>x\<bar> < 2 powr (of_int \<lfloor>log 2 \<bar>x\<bar>\<rfloor> + 1)"
    by simp_all
qed

lemma quantum_upper:
  assumes "x \<noteq> 0"
  shows "\<bar>x\<bar> < 2 powr (of_int (quantum x) + 53)"
proof -
  have "of_int \<lfloor>log 2 \<bar>x\<bar>\<rfloor> + 1 \<le> (of_int (quantum x) + 53 :: real)"
    by (simp add: quantum_def)
  then have "2 powr (of_int \<lfloor>log 2 \<bar>x\<bar>\<rfloor> + 1) \<le> (2::real) powr (of_int (quantum x) + 53)"
    by (intro powr_mono) simp_all
  with floor_log2_bounds(2) [OF assms] show ?thesis by linarith
qed

lemma quantum_size:
  assumes "x \<noteq> 0"
  shows "2 powr of_int (quantum x) \<le> \<bar>x\<bar> / 2 ^ 52 + 1 / 2 ^ 1074"
proof (cases "- 1074 \<le> \<lfloor>log 2 \<bar>x\<bar>\<rfloor> - 52")
  case True
  then have q: "quantum x = \<lfloor>log 2 \<bar>x\<bar>\<rfloor> - 52" by (simp add: quantum_def)
  have "(2::real) powr of_int (quantum x) = 2 powr of_int \<lfloor>log 2 \<bar>x\<bar>\<rfloor> / 2 ^ 52"
    unfolding q by (simp add: powr_diff powr_realpow [symmetric])
  also have "\<dots> \<le> \<bar>x\<bar> / 2 ^ 52"
    using floor_log2_bounds(1) [OF assms] by (intro divide_right_mono) simp_all
  finally show ?thesis by (simp add: add_increasing2)
next
  case False
  then have q: "quantum x = - 1074" by (simp add: quantum_def)
  have "(2::real) powr of_int (quantum x) = 1 / 2 ^ 1074"
    unfolding q by (simp add: powr_minus_divide powr_realpow [symmetric])
  then show ?thesis by simp
qed

lemma round_real_error: "\<bar>round_real x - x\<bar> \<le> \<bar>x\<bar> / 2 ^ 53 + 1 / 2 ^ 1075"
proof (cases "x = 0")
  case True
  then show ?thesis by (simp add: round_real_def)
next
  case False
  define p where "p = (2::real) powr of_int (quantum x)"
  have p: "0 < p" by (simp add: p_def)
  have "round_real x - x = (of_int (rne (x / p)) - x / p) * p"
    using False p by (simp add: round_real_def p_def algebra_simps)
  then have "\<bar>round_real x - x\<bar> = \<bar>of_int (rne (x / p)) - x / p\<bar> * p"
    using p by (simp add: abs_mult)
  also have "\<dots> \<le> 1 / 2 * p"
    using rne_error [of "x / p"] p by (intro mult_right_mono) simp_all
  also have "\<dots> \<le> 1 / 2 * (\<bar>x\<bar> / 2 ^ 52 + 1 / 2 ^ 1074)"
    using quantum_size [OF False] by (intro mult_left_mono) (simp_all add: p_def)
  also have "\<dots> = \<bar>x\<bar> / 2 ^ 53 + 1 / 2 ^ 1075" by simp
  finally show ?thesis .
qed


lemma round64_finite:
  assumes "\<bar>x\<bar> \<le> 2 ^ 100"
  shows "round64 x = Finite (round_real x)"
proof -
  have "\<bar>round_real x\<bar> \<le> \<bar>x\<bar> + \<bar>round_real x - x\<bar>" by linarith
  also have "\<dots> \<le> \<bar>x\<bar> + (\<bar>x\<bar> / 2 ^ 53 + 1 / 2 ^ 1075)"
    using round_real_error [of x] by simp
  also have "\<dots> \<le> 2 ^ 100 + (2 ^ 100 / 2 ^ 53 + 1 / 2 ^ 1075)"
    using assms by (intro add_mono divide_right_mono) simp_all
  also have "\<dots> < (2::real) ^ 101" by simp
  finally have a: "\<bar>round_real x\<bar> < 2 ^ 101" .
  have "(2::real) ^ 101 \<le> 2 ^ 1024" by (intro power_increasing) simp_all
  with a have "\<bar>round_real x\<bar> < 2 ^ 1024" by linarith
  then have "\<not> 2 ^ 1024 \<le> round_real x" "\<not> round_real x \<le> - (2 ^ 1024)" by linarith+
  then show ?thesis unfolding round64_def Let_def by (simp only: if_False)
qed

lemma rne_nonneg: "0 \<le> x \<Longrightarrow> 0 \<le> rne x"
  by (simp add: rne_def Let_def)

lemma round_real_nonneg: "0 \<le> x \<Longrightarrow> 0 \<le> round_real x"
  by (simp add: round_real_def rne_nonneg)

lemma round_real_nonpos: "x \<le> 0 \<Longrightarrow> round_real x \<le> 0"
  using round_real_nonneg [of "- x"] by (simp add: round_real_minus)

lemma round_real_dyadic:
  assumes n: "\<bar>n\<bar> < 2 ^ 53" and k: "k \<le> 1074"
  shows "round_real (of_int n / 2 ^ k) = of_int n / 2 ^ k"
proof (cases "n = 0")
  case True
  then show ?thesis by (simp add: round_real_def)
next
  case False
  define x :: real where "x = of_int n / 2 ^ k"
  define q where "q = quantum x"
  have x0: "x \<noteq> 0" using False by (simp add: x_def)
  have "\<bar>x\<bar> = of_int \<bar>n\<bar> / 2 ^ k" by (simp add: x_def abs_divide)
  also have "\<dots> < 2 ^ 53 / 2 ^ k"
    using n by (intro divide_strict_right_mono) (simp_all add: of_int_less_numeral_power_cancel_iff)
  also have "\<dots> = 2 powr (53 - of_nat k)"
    by (simp add: powr_diff powr_realpow [symmetric])
  finally have "2 powr of_int \<lfloor>log 2 \<bar>x\<bar>\<rfloor> < (2::real) powr (53 - of_nat k)"
    using floor_log2_bounds(1) [OF x0] by linarith
  then have "of_int \<lfloor>log 2 \<bar>x\<bar>\<rfloor> < (53 - of_nat k :: real)" by simp
  then have "\<lfloor>log 2 \<bar>x\<bar>\<rfloor> < 53 - int k" by linarith
  then have qk: "q \<le> - int k" using k by (simp add: q_def quantum_def)
  define j where "j = nat (- int k - q)"
  have j: "int j = - int k - q" using qk by (simp add: j_def)
  have pq: "(2::real) powr of_int q = 2 powr (- of_nat k) / 2 ^ j"
  proof -
    have "of_int q = (- of_nat k - of_nat j :: real)" using j by linarith
    then show ?thesis by (simp add: powr_diff powr_realpow [symmetric])
  qed
  have pk: "(2::real) powr (- of_nat k) = 1 / 2 ^ k"
    by (simp add: powr_minus_divide powr_realpow [symmetric])
  have "x / 2 powr of_int q = of_int (n * 2 ^ j)"
    unfolding pq pk x_def by simp
  then have "rne (x / 2 powr of_int q) = n * 2 ^ j" by (simp only: rne_of_int)
  then have "round_real x = of_int (n * 2 ^ j) * 2 powr of_int q"
    using x0 by (simp add: round_real_def q_def)
  also have "\<dots> = x" unfolding pq pk x_def by simp
  finally show ?thesis by (simp add: x_def)
qed


subsection \<open>Double-precision arithmetic\<close>

lemma round64_minus: "round64 (- x) = dneg (round64 x)"
proof -
  define y where "y = round_real x"
  have p: "(0::real) < 2 ^ 1024" by simp
  consider "2 ^ 1024 \<le> y" | "y \<le> - (2 ^ 1024)" | "\<not> 2 ^ 1024 \<le> y" "\<not> y \<le> - (2 ^ 1024)" by blast
  then show ?thesis
  proof cases
    case 1
    then have "\<not> 2 ^ 1024 \<le> - y" using p by linarith
    with 1 show ?thesis by (simp add: round64_def round_real_minus y_def [symmetric] Let_def)
  next
    case 2
    then have "\<not> 2 ^ 1024 \<le> y" using p by linarith
    with 2 show ?thesis by (simp add: round64_def round_real_minus y_def [symmetric] Let_def)
  next
    case 3
    then have "\<not> 2 ^ 1024 \<le> - y" "\<not> - y \<le> - (2 ^ 1024)" by linarith+
    with 3 show ?thesis by (simp add: round64_def round_real_minus y_def [symmetric] Let_def)
  qed
qed

lemma dneg_dneg: "dneg (dneg a) = a"
  by (cases a) simp_all

lemma dadd_commute: "dadd a b = dadd b a"
  by (cases a; cases b) (simp_all add: add.commute)

lemma dneg_dadd: "dadd (dneg a) (dneg b) = dneg (dadd a b)"
proof (cases a; cases b)
  fix x y assume "a = Finite x" "b = Finite y"
  then show ?thesis using round64_minus [of "x + y"] by simp
qed simp_all

lemma dsub_antisym: "dsub a b = dneg (dsub b a)"
proof -
  have "dneg (dsub b a) = dadd (dneg b) (dneg (dneg a))" by (simp only: dsub_def dneg_dadd)
  also have "\<dots> = dadd a (dneg b)" by (simp only: dneg_dneg dadd_commute)
  finally show ?thesis by (simp add: dsub_def)
qed

lemma dmul_dneg: "dmul (Finite c) (dneg b) = dneg (dmul (Finite c) b)"
proof (cases b)
  case (Finite y)
  then show ?thesis using round64_minus [of "c * y"] by simp
qed simp_all

lemma int32_to_double_minus:
  assumes "x \<noteq> - 2147483648"
  shows "int32_to_double (- x) = dneg (int32_to_double x)"
proof -
  have "sint x \<noteq> - 2147483648"
    using assms word_eq_iff_signed [of x "- 2147483648"] by simp
  then have "sint (- x) = - sint x"
    using sint32_range [of x] sint32_of_int [of "- sint x"] by simp
  then show ?thesis by (simp add: int32_to_double_def)
qed

lemma round64_of_int:
  assumes "\<bar>n\<bar> < 2 ^ 53"
  shows "round64 (of_int n) = Finite (of_int n)"
proof -
  have "\<bar>of_int n :: real\<bar> < 2 ^ 53" using assms by (simp flip: of_int_abs add: of_int_less_numeral_power_cancel_iff)
  moreover have "(2::real) ^ 53 \<le> 2 ^ 100" by (intro power_increasing) simp_all
  ultimately have "\<bar>of_int n :: real\<bar> \<le> 2 ^ 100" by linarith
  then have "round64 (of_int n) = Finite (round_real (of_int n))" by (rule round64_finite)
  also have "round_real (of_int n) = of_int n"
    using round_real_dyadic [OF assms, of 0] by simp
  finally show ?thesis .
qed

lemma round64_dyadic:
  assumes "\<bar>n\<bar> < 2 ^ 53" "k \<le> 1074"
  shows "round64 (of_int n / 2 ^ k) = Finite (of_int n / 2 ^ k)"
proof -
  have a: "\<bar>of_int n :: real\<bar> < 2 ^ 53" using assms by (simp flip: of_int_abs add: of_int_less_numeral_power_cancel_iff)
  have "\<bar>of_int n / 2 ^ k :: real\<bar> = \<bar>of_int n\<bar> / 2 ^ k" by (simp add: abs_divide)
  also have "\<dots> \<le> \<bar>of_int n\<bar> / 1" by (intro divide_left_mono) simp_all
  finally have "\<bar>of_int n / 2 ^ k :: real\<bar> < 2 ^ 53" using a by simp
  moreover have "(2::real) ^ 53 \<le> 2 ^ 100" by (intro power_increasing) simp_all
  ultimately have "\<bar>of_int n / 2 ^ k :: real\<bar> \<le> 2 ^ 100" by linarith
  then have "round64 (of_int n / 2 ^ k) = Finite (round_real (of_int n / 2 ^ k))" by (rule round64_finite)
  then show ?thesis by (simp only: round_real_dyadic [OF assms])
qed

lemma round64_0: "round64 0 = Finite 0"
  using round64_of_int [of 0] by simp

lemma round64_numeral:
  assumes "(numeral w :: int) < 2 ^ 53"
  shows "round64 (numeral w) = Finite (numeral w)" "round64 (- numeral w) = Finite (- numeral w)"
  using round64_of_int [of "numeral w"] round64_of_int [of "- numeral w"] assms by simp_all

lemma round64_bounds:
  assumes "\<bar>x\<bar> \<le> 2 ^ 100"
  shows "\<exists>y. round64 x = Finite y \<and> \<bar>y - x\<bar> \<le> \<bar>x\<bar> / 2 ^ 53 + 1 / 2 ^ 1075
            \<and> (0 \<le> x \<longrightarrow> 0 \<le> y) \<and> (x \<le> 0 \<longrightarrow> y \<le> 0)"
  using round64_finite [OF assms] round_real_error [of x] round_real_nonneg [of x]
    round_real_nonpos [of x] by simp

text \<open>The two decimal literals of the source, \<open>1e-8\<close> and \<open>0.0000000001\<close>.\<close>

lemma near_literal:
  fixes y a b :: real
  assumes "\<bar>y - a\<bar> \<le> e" "e < b" "a = 10 * b"
  shows "9 * b < y \<and> y < 11 * b"
  using assms unfolding abs_le_iff by linarith


lemma literal_1e_10: "\<exists>c. round64 (1 / 10 ^ 10) = Finite c \<and> 9 / 10 ^ 11 < c \<and> c < 11 / 10 ^ 11"
proof -
  have "\<bar>1 / 10 ^ 10 :: real\<bar> \<le> 2 ^ 100" by simp
  from round64_bounds [OF this] obtain y where y: "round64 (1 / 10 ^ 10) = Finite y"
    "\<bar>y - 1 / 10 ^ 10\<bar> \<le> \<bar>1 / 10 ^ 10\<bar> / 2 ^ 53 + 1 / 2 ^ 1075" by blast
  have "\<bar>1 / 10 ^ 10 :: real\<bar> / 2 ^ 53 + 1 / 2 ^ 1075 < 1 / 10 ^ 11" by simp
  from near_literal [OF y(2) this] have "9 / 10 ^ 11 < y \<and> y < 11 / 10 ^ 11" by simp
  with y(1) show ?thesis by blast
qed

subsection \<open>The seconds-of-day constructor\<close>

lemma trunc_real_of_int: "trunc_real (of_int k) = k"
  by (simp add: trunc_real_def)

lemma carry_of_floor:
  assumes "- 2147483648 \<le> \<lfloor>b\<rfloor>" "\<lfloor>b\<rfloor> \<le> 2147483647"
  shows "double_to_int32 (dfloor (Finite b)) = Some (word_of_int \<lfloor>b\<rfloor>)"
  using assms by (simp add: trunc_real_of_int)

lemma round_just_below_60: "round64 (59 + (1 - 1 / 2 ^ 53)) = Finite 60"
proof -
  define x :: real where "x = 59 + (1 - 1 / 2 ^ 53)"
  have x: "x = 60 - 1 / 2 ^ 53" "0 < x" "\<bar>x\<bar> \<le> 2 ^ 100" by (simp_all add: x_def)
  have "2 powr of_int 5 \<le> \<bar>x\<bar> \<and> \<bar>x\<bar> < 2 powr (of_int 5 + 1)" by (simp add: x_def)
  then have "\<lfloor>log 2 \<bar>x\<bar>\<rfloor> = 5"
    using floor_log_eq_powr_iff [of "\<bar>x\<bar>" 2 5] x(2) by simp
  then have q: "quantum x = - 47" by (simp add: quantum_def)
  have p: "(2::real) powr of_int (quantum x) = 1 / 2 ^ 47"
    unfolding q by (simp add: powr_minus_divide)
  have m: "x / (1 / 2 ^ 47) = 8444249301319680 - 1 / 64" by (simp add: x_def)
  have f: "\<lfloor>8444249301319680 - 1 / 64 :: real\<rfloor> = 8444249301319679"
    by (intro floor_unique) simp_all
  have r: "rne (8444249301319680 - 1 / 64) = 8444249301319680"
    unfolding rne_def Let_def f by simp
  have "round_real x = of_int (rne (x / 2 powr of_int (quantum x))) * 2 powr of_int (quantum x)"
    using x(2) by (simp add: round_real_def)
  also have "\<dots> = of_int 8444249301319680 * (1 / 2 ^ 47)" by (simp only: p m r)
  also have "\<dots> = 60" by simp
  finally have "round_real x = 60" .
  then show ?thesis using round64_finite [OF x(3)] by (simp add: x_def)
qed


subsection \<open>Results that are numbers\<close>

lemma round64_not_nan: "\<not> isnan (round64 x)"
  by (simp add: round64_def Let_def)

lemma dadd_finite_not_nan: "\<not> isnan t \<Longrightarrow> \<not> isnan (dadd (Finite p) t)"
  by (cases t) (simp_all add: round64_not_nan)

lemma dmul_int:
  assumes "\<bar>k\<bar> \<le> 86400"
  shows "dmul (Finite (of_int k)) (int32_to_double i) = Finite (of_int (k * sint i))"
proof -
  have "\<bar>sint i\<bar> \<le> 2147483648" using sint32_range [of i] by simp
  then have "\<bar>k\<bar> * \<bar>sint i\<bar> \<le> 86400 * 2147483648"
    using assms by (intro mult_mono) simp_all
  then have "\<bar>k * sint i\<bar> < 2 ^ 53" by (simp add: abs_mult)
  from round64_of_int [OF this] show ?thesis by (simp add: int32_to_double_def)
qed

lemma seconds_in_day_finite:
  assumes "second tc = Finite s" "\<bar>s\<bar> \<le> 2 ^ 64"
  shows "\<exists>u. getSecondsInUTCDay tc = Finite u"
proof -
  define m h where "m = real_of_int (60 * sint (minute tc - minutesFromUTC tc))"
    and "h = real_of_int (3600 * sint (hour tc))"
  have "\<bar>60 * sint (minute tc - minutesFromUTC tc)\<bar> \<le> 2 ^ 40"
    using sint32_range [of "minute tc - minutesFromUTC tc"] by simp
  then have "real_of_int \<bar>60 * sint (minute tc - minutesFromUTC tc)\<bar> \<le> real_of_int (2 ^ 40)"
    by (rule iffD2 [OF of_int_le_iff])
  then have mr: "\<bar>m\<bar> \<le> 2 ^ 40"
    unfolding m_def by (simp only: of_int_abs of_int_power of_int_numeral)
  have "\<bar>3600 * sint (hour tc)\<bar> \<le> 2 ^ 44"
    using sint32_range [of "hour tc"] by simp
  then have "real_of_int \<bar>3600 * sint (hour tc)\<bar> \<le> real_of_int (2 ^ 44)"
    by (rule iffD2 [OF of_int_le_iff])
  then have hr: "\<bar>h\<bar> \<le> 2 ^ 44"
    unfolding h_def by (simp only: of_int_abs of_int_power of_int_numeral)
  have p1: "dmul (Finite 60) (int32_to_double (minute tc - minutesFromUTC tc)) = Finite m"
    using dmul_int [of 60 "minute tc - minutesFromUTC tc"] by (simp add: m_def)
  have p2: "dmul (Finite 3600) (int32_to_double (hour tc)) = Finite h"
    using dmul_int [of 3600 "hour tc"] by (simp add: h_def)
  have "\<bar>s + m\<bar> \<le> 2 ^ 64 + 2 ^ 40" using assms(2) mr by linarith
  then have x: "\<bar>s + m\<bar> \<le> 2 ^ 65" by simp
  then have "\<bar>s + m\<bar> \<le> 2 ^ 100" by simp
  from round64_bounds [OF this] obtain q where q: "round64 (s + m) = Finite q"
    "\<bar>q - (s + m)\<bar> \<le> \<bar>s + m\<bar> / 2 ^ 53 + 1 / 2 ^ 1075" by blast
  have "\<bar>s + m\<bar> / 2 ^ 53 + 1 / 2 ^ 1075 \<le> 2 ^ 65 / 2 ^ 53 + 1 / 2 ^ 1075"
    using x by (intro add_mono divide_right_mono) simp_all
  with q(2) x have "\<bar>q\<bar> \<le> 2 ^ 65 + (2 ^ 65 / 2 ^ 53 + 1 / 2 ^ 1075)" by linarith
  then have "\<bar>q\<bar> \<le> 2 ^ 66" by simp
  with hr have "\<bar>q + h\<bar> \<le> 2 ^ 66 + 2 ^ 44" by linarith
  then have "\<bar>q + h\<bar> \<le> 2 ^ 100" by simp
  from round64_finite [OF this] have "dadd (dadd (Finite s) (Finite m)) (Finite h) = Finite (round_real (q + h))"
    by (simp add: q(1))
  then show ?thesis
    unfolding getSecondsInUTCDay_def assms(1) p1 p2 by blast
qed

lemma offset_not_nan:
  "\<not> isnan (dadd (dmul JULIAN_DAY (int32_to_double d)) (dsub (Finite u) (Finite v)))"
proof -
  have p: "dmul JULIAN_DAY (int32_to_double d) = Finite (of_int (86400 * sint d))"
    using dmul_int [of 86400 d] by (simp add: JULIAN_DAY_def)
  have "\<not> isnan (dsub (Finite u) (Finite v))" by (simp add: dsub_def round64_not_nan)
  then show ?thesis unfolding p by (rule dadd_finite_not_nan)
qed


subsection \<open>The time normalizer on seconds of one day\<close>

lemma clamp_value:
  assumes "m = 60 \<or> m = 61"
  shows "\<exists>v. dsub (Finite m) (round64 (1 / 10 ^ 10)) = Finite v \<and> 0 \<le> v \<and> v < m"
proof -
  obtain c where c: "round64 (1 / 10 ^ 10) = Finite c" "9 / 10 ^ 11 < c" "c < 11 / 10 ^ 11"
    using literal_1e_10 by blast
  have c1: "0 < c" "c < 1"
    using c(2,3) by simp_all
  have m: "60 \<le> m" "m \<le> 61" using assms by auto
  have a: "\<bar>m - c\<bar> \<le> 61" using m c1 by simp
  then have "\<bar>m - c\<bar> \<le> 2 ^ 100" by simp
  from round64_bounds [OF this] obtain v where v: "round64 (m - c) = Finite v"
    "\<bar>v - (m - c)\<bar> \<le> \<bar>m - c\<bar> / 2 ^ 53 + 1 / 2 ^ 1075" by blast
  have "\<bar>m - c\<bar> / 2 ^ 53 + 1 / 2 ^ 1075 \<le> 61 / 2 ^ 53 + 1 / 2 ^ 1075"
    using a by (intro add_mono divide_right_mono) simp_all
  with v(2) have e: "\<bar>v - (m - c)\<bar> \<le> 61 / 2 ^ 53 + 1 / 2 ^ 1075" by linarith
  have s: "61 / 2 ^ 53 + 1 / 2 ^ 1075 < (9 / 10 ^ 11 :: real)" by simp
  have "v < m" using e s c(2) by linarith
  moreover have "61 / 2 ^ 53 + 1 / 2 ^ 1075 < (1 :: real)" by simp
  then have "0 \<le> v" using e c1 m by linarith
  moreover have "dsub (Finite m) (round64 (1 / 10 ^ 10)) = Finite v"
    unfolding c(1) dsub_def using v(1) by simp
  ultimately show ?thesis by blast
qed

lemma round_real_small:
  assumes "0 \<le> x" "x \<le> 64"
  shows "0 \<le> round_real x" "round_real x \<le> 65" "round64 x = Finite (round_real x)"
proof -
  show "0 \<le> round_real x" using assms(1) by (rule round_real_nonneg)
  have "\<bar>x\<bar> / 2 ^ 53 + 1 / 2 ^ 1075 \<le> 64 / 2 ^ 53 + 1 / 2 ^ 1075"
    using assms by (intro add_mono divide_right_mono) simp_all
  with round_real_error [of x] have "\<bar>round_real x - x\<bar> \<le> 64 / 2 ^ 53 + 1 / 2 ^ 1075" by linarith
  moreover have "64 / 2 ^ 53 + 1 / 2 ^ 1075 \<le> (1 :: real)" by simp
  ultimately show "round_real x \<le> 65" using assms by linarith
  have "\<bar>x\<bar> \<le> 2 ^ 100" using assms by simp
  then show "round64 x = Finite (round_real x)" by (rule round64_finite)
qed

lemma word32_sub_mult:
  "(word_of_int W :: int32) - word_of_int k * word_of_int (W div k) = word_of_int (W mod k)"
proof -
  have "W - k * (W div k) = W mod k" by (simp add: minus_mult_div_eq_mod)
  then have "(word_of_int (W - k * (W div k)) :: int32) = word_of_int (W mod k)" by simp
  then show ?thesis by simp
qed

lemma split_in_day:
  fixes a md :: int32 and b lp :: real and W :: int
  assumes fl: "- 2147483648 \<le> \<lfloor>b\<rfloor>" "\<lfloor>b\<rfloor> \<le> 2147483647"
    and W: "a + word_of_int \<lfloor>b\<rfloor> = word_of_int W" "0 \<le> W" "W \<le> 86399"
    and lp: "lp = 0 \<or> lp = 1" and md: "md = 60 \<or> md = 61"
  shows "\<exists>tc s. TimeComponents_split a (Finite b) (Finite lp) md = Some tc
      \<and> sint (hour tc) = W div 3600 \<and> sint (minute tc) = W mod 3600 div 60
      \<and> second tc = Finite s \<and> 0 \<le> s \<and> s < 61 \<and> minutesFromUTC tc = 0"
proof -
  define q3 r3 q6 w2 where "q3 = W div 3600" and "r3 = W mod 3600" and "q6 = r3 div 60"
    and "w2 = r3 mod 60"
  have r3: "0 \<le> r3" "r3 < 3600" by (simp_all add: r3_def)
  have w2: "0 \<le> w2" "w2 < 60" by (simp_all add: w2_def)
  have q3: "0 \<le> q3" "q3 \<le> 23" using W(2,3) by (simp_all add: q3_def)
  have q6: "0 \<le> q6" "q6 \<le> 59" using r3 by (simp_all add: q6_def)
  have carry: "double_to_int32 (dfloor (Finite b)) = Some (word_of_int \<lfloor>b\<rfloor>)"
    using fl by (rule carry_of_floor)
  have sc: "sint (word_of_int \<lfloor>b\<rfloor> :: int32) = \<lfloor>b\<rfloor>" using fl by (rule sint32_of_int)
  have sW: "sint (word_of_int W :: int32) = W" using W(2,3) by (intro sint32_of_int) simp_all
  have sr: "sint (word_of_int r3 :: int32) = r3" using r3 by (intro sint32_of_int) simp_all
  have sw: "sint (word_of_int w2 :: int32) = w2" using w2 by (intro sint32_of_int) simp_all
  have e2: "sdivw (word_of_int W :: int32) 3600 = word_of_int q3"
    using sdivw_nonneg [of "word_of_int W :: int32" 3600 3600] W(2) by (simp add: sW q3_def)
  have e3: "(word_of_int W :: int32) - 3600 * word_of_int q3 = word_of_int r3"
    using word32_sub_mult [of W 3600] by (simp add: q3_def r3_def)
  have e4: "sdivw (word_of_int r3 :: int32) 60 = word_of_int q6"
    using sdivw_nonneg [of "word_of_int r3 :: int32" 60 60] r3(1) by (simp add: sr q6_def)
  have e5: "(word_of_int r3 :: int32) - 60 * word_of_int q6 = word_of_int w2"
    using word32_sub_mult [of r3 60] by (simp add: q6_def w2_def)
  have e6: "int32_to_double (word_of_int w2) = Finite (of_int w2)"
    by (simp add: int32_to_double_def sw)
  define f where "f = b - of_int \<lfloor>b\<rfloor>"
  have f: "0 \<le> f" "f \<le> 64" unfolding f_def by linarith+
  define fr where "fr = round_real f"
  have fr: "0 \<le> fr" "fr \<le> 65" "round64 f = Finite fr"
    unfolding fr_def using f by (rule round_real_small)+
  have "\<bar>f\<bar> / 2 ^ 53 + 1 / 2 ^ 1075 \<le> 1 / 2 ^ 53 + 1 / 2 ^ 1075"
  proof -
    have "\<bar>f\<bar> \<le> 1" unfolding f_def by linarith
    then show ?thesis by (intro add_mono divide_right_mono) simp_all
  qed
  with round_real_error [of f] have "\<bar>fr - f\<bar> \<le> 1 / 2 ^ 53 + 1 / 2 ^ 1075" by (simp add: fr_def)
  moreover have "1 / 2 ^ 53 + 1 / 2 ^ 1075 \<le> (1 :: real)" by simp
  moreover have "f < 1" unfolding f_def by linarith
  ultimately have fr2: "fr \<le> 2" by linarith
  have e7: "dsub (Finite b) (int32_to_double (word_of_int \<lfloor>b\<rfloor>)) = Finite fr"
    using fr(3) by (simp add: dsub_def int32_to_double_def sc f_def)
  define y1 where "y1 = round_real (lp + fr)"
  have "0 \<le> lp + fr" "lp + fr \<le> 64" using lp fr(1) fr2 by auto
  then have y1: "0 \<le> y1" "y1 \<le> 65" "round64 (lp + fr) = Finite y1"
    unfolding y1_def by (rule round_real_small)+
  have "\<bar>lp + fr\<bar> / 2 ^ 53 + 1 / 2 ^ 1075 \<le> 3 / 2 ^ 53 + 1 / 2 ^ 1075"
  proof -
    have "\<bar>lp + fr\<bar> \<le> 3" using lp fr(1) fr2 by auto
    then show ?thesis by (intro add_mono divide_right_mono) simp_all
  qed
  with round_real_error [of "lp + fr"] have "\<bar>y1 - (lp + fr)\<bar> \<le> 3 / 2 ^ 53 + 1 / 2 ^ 1075"
    by (simp add: y1_def)
  moreover have "3 / 2 ^ 53 + 1 / 2 ^ 1075 \<le> (1 :: real)" by simp
  moreover have "lp + fr \<le> 3" using lp fr2 by auto
  ultimately have y4: "y1 \<le> 4" by linarith
  have e8: "dadd (Finite lp) (Finite fr) = Finite y1" using y1(3) by simp
  define nv where "nv = round_real (of_int w2 + y1)"
  have "0 \<le> real_of_int w2 + y1" "real_of_int w2 + y1 \<le> 64" using w2 y1(1) y4 by simp_all
  then have nv: "0 \<le> nv" "nv \<le> 65" "round64 (of_int w2 + y1) = Finite nv"
    unfolding nv_def by (rule round_real_small)+
  have e9: "dadd (Finite (of_int w2)) (Finite y1) = Finite nv" using nv(3) by simp
  define mdr :: real where "mdr = of_int (sint md)"
  have mdr: "mdr = 60 \<or> mdr = 61" using md by (auto simp add: mdr_def)
  have e10: "int32_to_double md = Finite mdr" by (simp add: int32_to_double_def mdr_def)
  obtain v where v: "dsub (Finite mdr) (round64 (1 / 10 ^ 10)) = Finite v" "0 \<le> v" "v < mdr"
    using clamp_value [OF mdr] by blast
  define s where "s = (if nv < mdr then nv else v)"
  have s: "0 \<le> s" "s < 61" using nv(1) v(2,3) mdr by (auto simp add: s_def)
  have "TimeComponents_split a (Finite b) (Finite lp) md
      = Some \<lparr>hour = word_of_int q3, minute = word_of_int q6, second = Finite s, minutesFromUTC = 0\<rparr>"
    unfolding TimeComponents_split_def carry option.case Let_def W(1) e2 e3 e4 e5 e6 e7 e8 e9 e10 v(1)
    by (simp add: s_def)
  moreover have "sint (word_of_int q3 :: int32) = W div 3600"
    using q3 unfolding q3_def by (intro sint32_of_int) simp_all
  moreover have "sint (word_of_int q6 :: int32) = W mod 3600 div 60"
    using q6 unfolding q6_def r3_def by (intro sint32_of_int) simp_all
  ultimately show ?thesis using s by simp
qed

lemma real_sint32_range:
  "- 2147483648 \<le> real_of_int (sint (a :: int32))" "real_of_int (sint (a :: int32)) \<le> 2147483647"
proof -
  have "real_of_int (- 2147483648) \<le> real_of_int (sint a)"
    using sint32_range(1) [of a] by (rule iffD2 [OF of_int_le_iff])
  then show "- 2147483648 \<le> real_of_int (sint a)" by (simp only: of_int_minus of_int_numeral)
  have "real_of_int (sint a) \<le> real_of_int 2147483647"
    using sint32_range(2) [of a] by (rule iffD2 [OF of_int_le_iff])
  then show "real_of_int (sint a) \<le> 2147483647" by (simp only: of_int_numeral)
qed

lemma round_real_pos:
  assumes "1 \<le> x"
  shows "0 < round_real x"
proof -
  have "x / 2 ^ 53 \<le> x / 2" using assms by (intro divide_left_mono) simp_all
  moreover have "\<bar>round_real x - x\<bar> \<le> x / 2 ^ 53 + 1 / 2 ^ 1075"
    using round_real_error [of x] assms by simp
  moreover have "1 / 2 ^ 1075 < (1 / 2 :: real)" by simp
  ultimately show ?thesis using assms by linarith
qed

lemma in_day_test:
  fixes a :: int32 and b :: real
  assumes fl: "- 2147483648 \<le> \<lfloor>b\<rfloor>" "\<lfloor>b\<rfloor> \<le> 2147483647"
  shows "dless (Finite 0) (dsub (dsub JULIAN_DAY (int32_to_double a)) (Finite b))
      \<Longrightarrow> real_of_int (sint a) + b < 86400"
    and "\<not> dless (Finite 0) (dsub (dsub JULIAN_DAY (int32_to_double a)) (Finite b))
      \<Longrightarrow> 86399 < real_of_int (sint a) + b"
proof -
  define A where "A = real_of_int (sint a)"
  have A: "- 2147483648 \<le> A" "A \<le> 2147483647"
    unfolding A_def by (rule real_sint32_range)+
  have ia: "int32_to_double a = Finite A" by (simp only: int32_to_double_def A_def)
  have bb: "- 2147483648 \<le> b" "b < 2147483648" using fl by linarith+
  have "\<bar>86400 - sint a\<bar> < 2 ^ 53" using sint32_range [of a] by simp
  from round64_of_int [OF this] have "round64 (86400 - A) = Finite (86400 - A)"
    by (simp add: A_def)
  then have d1: "dsub JULIAN_DAY (Finite A) = Finite (86400 - A)"
    by (simp add: dsub_def JULIAN_DAY_def)
  define x where "x = 86400 - A - b"
  have "\<bar>x\<bar> \<le> 2 ^ 100" using A bb by (simp add: x_def)
  then have "round64 x = Finite (round_real x)" by (rule round64_finite)
  then have d2: "dsub (Finite (86400 - A)) (Finite b) = Finite (round_real x)"
    by (simp add: dsub_def x_def)
  have t: "dless (Finite 0) (dsub (dsub JULIAN_DAY (int32_to_double a)) (Finite b)) \<longleftrightarrow> 0 < round_real x"
    unfolding ia d1 d2 by simp
  {
    assume "dless (Finite 0) (dsub (dsub JULIAN_DAY (int32_to_double a)) (Finite b))"
    then have "0 < round_real x" using t by simp
    then have "0 < x" using round_real_nonpos [of x] by linarith
    then show "real_of_int (sint a) + b < 86400" by (simp add: x_def A_def)
  next
    assume "\<not> dless (Finite 0) (dsub (dsub JULIAN_DAY (int32_to_double a)) (Finite b))"
    then have "\<not> 0 < round_real x" using t by simp
    then have "x < 1" using round_real_pos [of x] by linarith
    then show "86399 < real_of_int (sint a) + b" by (simp add: x_def A_def)
  }
qed

lemma minus_mult_sdivw: "(a :: int32) - 3600 * sdivw a 3600 = smodw a 3600"
proof -
  have "sint a - 3600 * (sint a sdiv 3600) = sint a smod 3600"
    by (rule minus_mult_sdiv_eq_smod)
  then have "(word_of_int (sint a - 3600 * (sint a sdiv 3600)) :: int32) = word_of_int (sint a smod 3600)"
    by (rule arg_cong)
  then show ?thesis by (simp add: sdivw_def smodw_def)
qed


section \<open>The claims\<close>

text \<open>
  C1 (as amended). Day-count/triple round trip: for every 32-bit day-count \<open>d\<close>,
  \<open>DateComponents(d).getJ2000Day()\<close> returns \<open>d\<close>; and for every valid calendar
  triple between \<open>MIN_EPOCH\<close> (-5877490-03-03) and \<open>MAX_EPOCH\<close> (5881610-07-11),
  taking \<open>getJ2000Day()\<close> and constructing a \<open>DateComponents\<close> from that day-count
  gives back the same year, month and day.
\<close>

theorem date_round_trip:
  "Option.bind (DateComponents_offset d) getJ2000Day = Some d
   \<and> (valid_date dc \<and> in_supported_range dc \<longrightarrow>
        (\<exists>dc'. Option.bind (getJ2000Day dc) DateComponents_offset = Some dc'
           \<and> getYear dc' = getYear dc \<and> getMonth dc' = getMonth dc \<and> getDay dc' = getDay dc))"
proof (intro conjI impI)
  show "Option.bind (DateComponents_offset d) getJ2000Day = Some d"
    by (rule offset_then_j2000)
next
  assume "valid_date dc \<and> in_supported_range dc"
  then obtain j where "getJ2000Day dc = Some j" "DateComponents_offset j = Some dc"
    using j2000_then_offset [of dc] by blast
  then have "Option.bind (getJ2000Day dc) DateComponents_offset = Some dc" by simp
  then show "\<exists>dc'. Option.bind (getJ2000Day dc) DateComponents_offset = Some dc'
           \<and> getYear dc' = getYear dc \<and> getMonth dc' = getMonth dc \<and> getDay dc' = getDay dc"
    by simp
qed

theorem date_round_trip_witness:
  "valid_date (DateComponents_ymd 2024 2 29) \<and> in_supported_range (DateComponents_ymd 2024 2 29)
   \<and> Option.bind (DateComponents_offset 8825) getJ2000Day = Some 8825
   \<and> (\<exists>dc'. Option.bind (getJ2000Day (DateComponents_ymd 2024 2 29)) DateComponents_offset = Some dc'
         \<and> getYear dc' = 2024 \<and> getMonth dc' = 2 \<and> getDay dc' = 29)"
proof -
  have v: "valid_date (DateComponents_ymd 2024 2 29)"
    by (simp add: valid_date_def valid_triple_def leap_year_def leapG_def tab_simps DateComponents_ymd_def)
  have r: "in_supported_range (DateComponents_ymd 2024 2 29)"
    by (simp add: in_supported_range_iff DateComponents_ymd_def)
  from v r date_round_trip [of 8825 "DateComponents_ymd 2024 2 29"] show ?thesis
    by (simp add: getYear_def getMonth_def getDay_def DateComponents_ymd_def)
qed

text \<open>
  The claim as stated, for every valid calendar triple, fails beyond \<open>MAX_EPOCH\<close>:
  5881610-07-12 is a valid triple whose day-count \<open>2^31\<close> does not fit the 32-bit
  \<open>int\<close>; \<open>getJ2000Day()\<close> wraps to \<open>INT_MIN\<close> and the date built from it is
  -5877490-03-03.
\<close>

theorem date_round_trip_counterexample:
  "valid_date (DateComponents_ymd 5881610 7 12)
   \<and> Option.bind (getJ2000Day (DateComponents_ymd 5881610 7 12)) DateComponents_offset
       = Some (DateComponents_ymd (- 5877490) 3 3)
   \<and> getYear (DateComponents_ymd (- 5877490) 3 3) \<noteq> getYear (DateComponents_ymd 5881610 7 12)"
proof -
  have v: "valid_date (DateComponents_ymd 5881610 7 12)"
    by (simp add: valid_date_def valid_triple_def leap_year_def leapG_def tab_simps DateComponents_ymd_def)
  have j: "getJ2000Day (DateComponents_ymd 5881610 7 12) = Some (- 2147483648)"
    by (simp add: eval_simps)
  have "DateComponents_offset (- 2147483648) = Some (DateComponents_ymd (- 5877490) 3 3)"
    using MIN_EPOCH_eq by (simp add: MIN_EPOCH_def)
  with v j show ?thesis by (simp add: getYear_def DateComponents_ymd_def)
qed

text \<open>
  C2. The claim says that constructing a date from an invalid triple fails with an
  InvalidCalendarDate error. The constructor \<open>DateComponents(int, int, int)\<close> stores its
  arguments unchecked: the invalid triples 2001-02-29 (February 29 of a common year) and
  1582-10-10 (inside the reform gap) are constructed, and \<open>getJ2000Day()\<close> returns a
  day-count for each of them.
\<close>

theorem invalid_triple_is_constructed:
  "DateComponents_ymd 2001 2 29 = \<lparr>year = 2001, month = 2, day = 29\<rparr>
   \<and> \<not> valid_date (DateComponents_ymd 2001 2 29)
   \<and> getJ2000Day (DateComponents_ymd 2001 2 29) = Some 425
   \<and> \<not> valid_date (DateComponents_ymd 1582 10 10)
   \<and> getJ2000Day (DateComponents_ymd 1582 10 10) = Some (- 152389)"
proof -
  have "\<not> valid_date (DateComponents_ymd 2001 2 29)"
    by (simp add: valid_date_def valid_triple_def leap_year_def leapG_def tab_simps DateComponents_ymd_def)
  moreover have "\<not> valid_date (DateComponents_ymd 1582 10 10)"
    by (simp add: valid_date_def valid_triple_def DateComponents_ymd_def)
  moreover have "getJ2000Day (DateComponents_ymd 2001 2 29) = Some 425"
    by (simp add: eval_simps)
  moreover have "getJ2000Day (DateComponents_ymd 1582 10 10) = Some (- 152389)"
    by (simp add: eval_simps)
  ultimately show ?thesis by (simp add: DateComponents_ymd_def)
qed

text \<open>
  C3. Calendar continuity across the Gregorian reform: the day-count of 1582-10-15 is
  exactly one more than the day-count of 1582-10-04, no date at all has a day-count
  strictly between the two, and the date built from the day before 1582-10-15 is
  1582-10-04.
\<close>

theorem gregorian_reform_continuity:
  "getJ2000Day (DateComponents_ymd 1582 10 15) = Some (- 152384)
   \<and> getJ2000Day (DateComponents_ymd 1582 10 4) = Some (- 152385)
   \<and> (- 152384 :: int32) = - 152385 + 1
   \<and> \<not> (\<exists>dc j. getJ2000Day dc = Some j \<and> - 152385 <s j \<and> j <s - 152384)
   \<and> DateComponents_offset (- 152384 - 1) = Some (DateComponents_ymd 1582 10 4)"
proof -
  have "getJ2000Day (DateComponents_ymd 1582 10 15) = Some (- 152384)"
    by (simp add: eval_simps)
  moreover have "getJ2000Day (DateComponents_ymd 1582 10 4) = Some (- 152385)"
    by (simp add: eval_simps)
  moreover have "\<not> (- 152385 <s j \<and> j <s - 152384)" for j :: int32
    by (simp add: word_sless_alt)
  moreover have "DateComponents_offset (- 152384 - 1) = Some (DateComponents_ymd 1582 10 4)"
    by (simp add: eval_simps)
  ultimately show ?thesis by simp
qed

text \<open>
  C4 (as amended). ISO week-date round trip: for every week-year from -5877489 to
  5881609, every week in range for that week-year and every day of week in 1..7, the
  date \<open>createFromWeekComponents(wYear, week, dayOfWeek)\<close> has
  \<open>getCalendarWeek() == week\<close> and \<open>getDayOfWeek() == dayOfWeek\<close>. Calendar date
  1995-01-01 is week 52, day 7 (of week-year 1994) and 1996-12-31 is week 1, day 2 (of
  week-year 1997).
\<close>

theorem week_date_round_trip:
  "(- 5877489 \<le> sint wYear \<and> sint wYear \<le> 5881609 \<and> week_in_range wYear week
      \<and> 1 \<le> sint dayOfWeek \<and> sint dayOfWeek \<le> 7 \<longrightarrow>
      (\<exists>dc. createFromWeekComponents wYear week dayOfWeek = Some dc
          \<and> getCalendarWeek dc = Some week \<and> getDayOfWeek dc = Some dayOfWeek))
   \<and> getCalendarWeek (DateComponents_ymd 1995 1 1) = Some 52
   \<and> getDayOfWeek (DateComponents_ymd 1995 1 1) = Some 7
   \<and> createFromWeekComponents 1994 52 7 = Some (DateComponents_ymd 1995 1 1)
   \<and> getCalendarWeek (DateComponents_ymd 1996 12 31) = Some 1
   \<and> getDayOfWeek (DateComponents_ymd 1996 12 31) = Some 2
   \<and> createFromWeekComponents 1997 1 2 = Some (DateComponents_ymd 1996 12 31)"
proof -
  have a: "getCalendarWeek (DateComponents_ymd 1995 1 1) = Some 52"
    "getCalendarWeek (DateComponents_ymd 1996 12 31) = Some 1"
    by (simp_all add: week_eval_simps eval_simps)
  have b: "getDayOfWeek (DateComponents_ymd 1995 1 1) = Some 7"
    "getDayOfWeek (DateComponents_ymd 1996 12 31) = Some 2"
    by (simp_all add: week_eval_simps eval_simps)
  have c: "createFromWeekComponents 1994 52 7 = Some (DateComponents_ymd 1995 1 1)"
    "createFromWeekComponents 1997 1 2 = Some (DateComponents_ymd 1996 12 31)"
    by (simp_all add: week_eval_simps eval_simps)
  show ?thesis using a b c week_components [of wYear week dayOfWeek] by simp
qed

theorem week_date_round_trip_witness:
  "- 5877489 \<le> sint (1997 :: int32) \<and> sint (1997 :: int32) \<le> 5881609 \<and> week_in_range 1997 1
   \<and> 1 \<le> sint (2 :: int32) \<and> sint (2 :: int32) \<le> 7
   \<and> (\<exists>dc. createFromWeekComponents 1997 1 2 = Some dc
          \<and> getCalendarWeek dc = Some 1 \<and> getDayOfWeek dc = Some 2)"
proof -
  have w: "week_in_range 1997 1"
    by (simp add: week_in_range_def weeks_in_week_year_def week_eval_simps eval_simps)
  with week_date_round_trip [of 1997 1 2] show ?thesis by simp
qed

text \<open>
  The claim as stated, for every week-year, fails at the end of the 32-bit range: week 27,
  day 2 of week-year 5881610 is the date 5881610-07-06, five days before
  \<open>MAX_EPOCH\<close>; there \<open>getJ2000Day() + 6\<close> overflows in \<open>getDayOfWeek()\<close>, which
  returns 5.
\<close>

theorem week_date_counterexample:
  "week_in_range 5881610 27
   \<and> createFromWeekComponents 5881610 27 2 = Some (DateComponents_ymd 5881610 7 6)
   \<and> in_supported_range (DateComponents_ymd 5881610 7 6)
   \<and> getDayOfWeek (DateComponents_ymd 5881610 7 6) = Some 5"
proof -
  have "week_in_range 5881610 27"
    by (simp add: week_in_range_def weeks_in_week_year_def week_eval_simps eval_simps)
  moreover have "createFromWeekComponents 5881610 27 2 = Some (DateComponents_ymd 5881610 7 6)"
    by (simp add: week_eval_simps eval_simps)
  moreover have "in_supported_range (DateComponents_ymd 5881610 7 6)"
    by (simp add: in_supported_range_iff DateComponents_ymd_def)
  moreover have "getDayOfWeek (DateComponents_ymd 5881610 7 6) = Some 5"
    by (simp add: week_eval_simps eval_simps)
  ultimately show ?thesis by simp
qed

text \<open>
  C5 (as amended). Date ordering: \<open>a < b\<close> holds if and only if
  \<open>a.getJ2000Day() < b.getJ2000Day()\<close>; and for valid dates between \<open>MIN_EPOCH\<close> and
  \<open>MAX_EPOCH\<close>, neither \<open>a < b\<close> nor \<open>b < a\<close> holds exactly when \<open>a == b\<close>.
\<close>

theorem date_order_consistent:
  "valid_date a \<and> in_supported_range a \<and> valid_date b \<and> in_supported_range b \<longrightarrow>
     (\<exists>ja jb. getJ2000Day a = Some ja \<and> getJ2000Day b = Some jb
        \<and> date_less a b = Some (ja <s jb) \<and> date_less b a = Some (jb <s ja)
        \<and> ((\<not> ja <s jb \<and> \<not> jb <s ja) \<longleftrightarrow> date_eq a b))"
proof
  assume h: "valid_date a \<and> in_supported_range a \<and> valid_date b \<and> in_supported_range b"
  obtain ja where ja: "getJ2000Day a = Some ja" "DateComponents_offset ja = Some a"
    using j2000_then_offset [of a] h by blast
  obtain jb where jb: "getJ2000Day b = Some jb" "DateComponents_offset jb = Some b"
    using j2000_then_offset [of b] h by blast
  have "(\<not> ja <s jb \<and> \<not> jb <s ja) \<longleftrightarrow> sint ja = sint jb"
    unfolding word_sless_alt by linarith
  also have "\<dots> \<longleftrightarrow> ja = jb" by (rule word_eq_iff_signed [symmetric])
  also have "\<dots> \<longleftrightarrow> a = b" using ja jb by auto
  also have "\<dots> \<longleftrightarrow> date_eq a b" by (cases a, cases b) (simp add: date_eq_def)
  finally show "\<exists>ja jb. getJ2000Day a = Some ja \<and> getJ2000Day b = Some jb
        \<and> date_less a b = Some (ja <s jb) \<and> date_less b a = Some (jb <s ja)
        \<and> ((\<not> ja <s jb \<and> \<not> jb <s ja) \<longleftrightarrow> date_eq a b)"
    using ja jb by (simp add: date_less_def)
qed

theorem date_order_consistent_witness:
  "valid_date (DateComponents_ymd 1582 10 4) \<and> in_supported_range (DateComponents_ymd 1582 10 4)
   \<and> valid_date (DateComponents_ymd 1582 10 15) \<and> in_supported_range (DateComponents_ymd 1582 10 15)
   \<and> date_less (DateComponents_ymd 1582 10 4) (DateComponents_ymd 1582 10 15) = Some True
   \<and> date_less (DateComponents_ymd 1582 10 15) (DateComponents_ymd 1582 10 4) = Some False
   \<and> \<not> date_eq (DateComponents_ymd 1582 10 4) (DateComponents_ymd 1582 10 15)"
proof -
  have v: "valid_date (DateComponents_ymd 1582 10 4)" "valid_date (DateComponents_ymd 1582 10 15)"
    by (simp_all add: valid_date_def valid_triple_def leap_year_def leapJ_def tab_simps DateComponents_ymd_def)
  have r: "in_supported_range (DateComponents_ymd 1582 10 4)" "in_supported_range (DateComponents_ymd 1582 10 15)"
    by (simp_all add: in_supported_range_iff DateComponents_ymd_def)
  have j: "getJ2000Day (DateComponents_ymd 1582 10 4) = Some (- 152385)"
    "getJ2000Day (DateComponents_ymd 1582 10 15) = Some (- 152384)"
    by (simp_all add: eval_simps)
  from v r j date_order_consistent [of "DateComponents_ymd 1582 10 4" "DateComponents_ymd 1582 10 15"]
  show ?thesis by (simp add: date_eq_def DateComponents_ymd_def word_sless_alt)
qed

text \<open>
  The claim as stated, for all valid dates, fails outside the supported range:
  5881610-07-12 and -5877490-03-03 are two different valid triples whose 32-bit
  day-counts coincide, so neither is less than the other although they are not equal.
\<close>

theorem date_order_counterexample:
  "valid_date (DateComponents_ymd 5881610 7 12) \<and> valid_date (DateComponents_ymd (- 5877490) 3 3)
   \<and> date_less (DateComponents_ymd 5881610 7 12) (DateComponents_ymd (- 5877490) 3 3) = Some False
   \<and> date_less (DateComponents_ymd (- 5877490) 3 3) (DateComponents_ymd 5881610 7 12) = Some False
   \<and> \<not> date_eq (DateComponents_ymd 5881610 7 12) (DateComponents_ymd (- 5877490) 3 3)"
proof -
  have v: "valid_date (DateComponents_ymd 5881610 7 12)" "valid_date (DateComponents_ymd (- 5877490) 3 3)"
    by (simp_all add: valid_date_def valid_triple_def leap_year_def leapG_def leapJ_def tab_simps
        DateComponents_ymd_def)
  have j: "getJ2000Day (DateComponents_ymd 5881610 7 12) = Some (- 2147483648)"
    "getJ2000Day (DateComponents_ymd (- 5877490) 3 3) = Some (- 2147483648)"
    by (simp_all add: eval_simps)
  from v j show ?thesis by (simp add: date_less_def date_eq_def DateComponents_ymd_def)
qed


text \<open>
  C8 (as amended). Antisymmetry of date-time offsets: for all \<open>a\<close> and \<open>b\<close> whose
  32-bit day-count difference is not \<open>INT_MIN\<close> (in particular whenever the two dates
  are less than \<open>2^31\<close> days apart) and for which \<open>a.offsetFrom(b)\<close> is a number,
  \<open>a.offsetFrom(b) == -b.offsetFrom(a)\<close>, with \<open>==\<close> the comparison of doubles, under
  which not-a-number equals nothing. \<open>a.offsetFrom(b)\<close> is a number whenever the two
  \<open>second\<close> fields are finite and of magnitude at most \<open>2^64\<close>.
\<close>

theorem offsetFrom_antisymmetric:
  "(getJ2000Day (date a) = Some ja \<and> getJ2000Day (date b) = Some jb \<and> ja - jb \<noteq> - 2147483648
      \<and> offsetFrom a b = Some x \<and> \<not> isnan x
    \<longrightarrow> (\<exists>y. offsetFrom b a = Some y \<and> deq x (dneg y)))
   \<and> (getJ2000Day (date a) = Some ja \<and> getJ2000Day (date b) = Some jb
      \<and> second (time a) = Finite sa \<and> \<bar>sa\<bar> \<le> 2 ^ 64 \<and> second (time b) = Finite sb \<and> \<bar>sb\<bar> \<le> 2 ^ 64
    \<longrightarrow> (\<exists>z. offsetFrom a b = Some z \<and> \<not> isnan z))"
proof (intro conjI impI)
  assume h: "getJ2000Day (date a) = Some ja \<and> getJ2000Day (date b) = Some jb \<and> ja - jb \<noteq> - 2147483648
      \<and> offsetFrom a b = Some x \<and> \<not> isnan x"
  define ua ub where "ua = getSecondsInUTCDay (time a)" and "ub = getSecondsInUTCDay (time b)"
  have ab: "offsetFrom a b = Some (dadd (dmul (Finite 86400) (int32_to_double (ja - jb))) (dsub ua ub))"
    using h by (simp add: offsetFrom_def JULIAN_DAY_def ua_def ub_def)
  have "jb - ja = - (ja - jb)" by simp
  then have "int32_to_double (jb - ja) = dneg (int32_to_double (ja - jb))"
    using h int32_to_double_minus [of "ja - jb"] by simp
  then have "dadd (dmul (Finite 86400) (int32_to_double (jb - ja))) (dsub ub ua)
      = dadd (dneg (dmul (Finite 86400) (int32_to_double (ja - jb)))) (dneg (dsub ua ub))"
    using dsub_antisym [of ub ua] by (simp only: dmul_dneg)
  also have "\<dots> = dneg (dadd (dmul (Finite 86400) (int32_to_double (ja - jb))) (dsub ua ub))"
    by (rule dneg_dadd)
  finally have ba: "offsetFrom b a
      = Some (dneg (dadd (dmul (Finite 86400) (int32_to_double (ja - jb))) (dsub ua ub)))"
    using h by (simp add: offsetFrom_def JULIAN_DAY_def ua_def ub_def)
  have x: "x = dadd (dmul (Finite 86400) (int32_to_double (ja - jb))) (dsub ua ub)"
    using h ab by simp
  have "deq x (dneg (dneg x))" using h by (simp add: deq_def dneg_dneg)
  then show "\<exists>y. offsetFrom b a = Some y \<and> deq x (dneg y)"
    unfolding ba x by blast
next
  assume h: "getJ2000Day (date a) = Some ja \<and> getJ2000Day (date b) = Some jb
      \<and> second (time a) = Finite sa \<and> \<bar>sa\<bar> \<le> 2 ^ 64 \<and> second (time b) = Finite sb \<and> \<bar>sb\<bar> \<le> 2 ^ 64"
  obtain u where u: "getSecondsInUTCDay (time a) = Finite u"
    using h seconds_in_day_finite [of "time a" sa] by blast
  obtain v where v: "getSecondsInUTCDay (time b) = Finite v"
    using h seconds_in_day_finite [of "time b" sb] by blast
  have "offsetFrom a b = Some (dadd (dmul JULIAN_DAY (int32_to_double (ja - jb))) (dsub (Finite u) (Finite v)))"
    using h by (simp add: offsetFrom_def u v)
  then show "\<exists>z. offsetFrom a b = Some z \<and> \<not> isnan z"
    using offset_not_nan [of "ja - jb" u v] by blast
qed

theorem offsetFrom_antisymmetric_witness:
  "getJ2000Day (date \<lparr>date = DateComponents_ymd 2000 1 2, time = H12\<rparr>) = Some 1
   \<and> getJ2000Day (date \<lparr>date = DateComponents_ymd 2000 1 1, time = TimeComponents_hms 6 0 (Finite 0)\<rparr>) = Some 0
   \<and> (1 - 0 :: int32) \<noteq> - 2147483648
   \<and> offsetFrom \<lparr>date = DateComponents_ymd 2000 1 2, time = H12\<rparr>
        \<lparr>date = DateComponents_ymd 2000 1 1, time = TimeComponents_hms 6 0 (Finite 0)\<rparr> = Some (Finite 108000)
   \<and> \<not> isnan (Finite 108000)
   \<and> second (time \<lparr>date = DateComponents_ymd 2000 1 2, time = H12\<rparr>) = Finite 0 \<and> \<bar>0 :: real\<bar> \<le> 2 ^ 64
   \<and> second (time \<lparr>date = DateComponents_ymd 2000 1 1, time = TimeComponents_hms 6 0 (Finite 0)\<rparr>) = Finite 0
   \<and> offsetFrom \<lparr>date = DateComponents_ymd 2000 1 1, time = TimeComponents_hms 6 0 (Finite 0)\<rparr>
        \<lparr>date = DateComponents_ymd 2000 1 2, time = H12\<rparr> = Some (Finite (- 108000))
   \<and> deq (Finite 108000) (dneg (Finite (- 108000)))"
proof -
  define a where "a = \<lparr>date = DateComponents_ymd 2000 1 2, time = H12\<rparr>"
  define b where "b = \<lparr>date = DateComponents_ymd 2000 1 1, time = TimeComponents_hms 6 0 (Finite 0)\<rparr>"
  have j0: "getJ2000Day (DateComponents_ymd 2000 1 2) = Some 1"
    "getJ2000Day (DateComponents_ymd 2000 1 1) = Some 0"
    by (simp_all add: eval_simps)
  then have j: "getJ2000Day (date a) = Some 1" "getJ2000Day (date b) = Some 0"
    by (simp_all add: a_def b_def)
  have s: "getSecondsInUTCDay H12 = Finite 43200"
    "getSecondsInUTCDay (TimeComponents_hms 6 0 (Finite 0)) = Finite 21600"
    by (simp_all add: getSecondsInUTCDay_def H12_def TimeComponents_hms_def TimeComponents_hmsu_def
        int32_to_double_def round64_0 round64_numeral)
  have i: "int32_to_double 1 = Finite 1" by (simp add: int32_to_double_def)
  have ab: "offsetFrom a b = Some (Finite 108000)"
    by (simp add: offsetFrom_def j0 s i a_def b_def JULIAN_DAY_def dsub_def round64_numeral)
  have f: "second (time a) = Finite 0" "second (time b) = Finite 0"
    by (simp_all add: a_def b_def H12_def TimeComponents_hms_def TimeComponents_hmsu_def)
  from offsetFrom_antisymmetric [of a 1 b 0 "Finite 108000" 0 0] j ab f
  have "\<exists>y. offsetFrom b a = Some y \<and> deq (Finite 108000) (dneg y)" by simp
  then obtain y where y: "offsetFrom b a = Some y" "deq (Finite 108000) (dneg y)" by blast
  from y(2) have "dneg y = Finite 108000" by (simp add: deq_def)
  then have "y = Finite (- 108000)" by (cases y) simp_all
  with y j ab f show ?thesis unfolding a_def b_def by simp
qed

text \<open>
  The claim as stated, for all values, fails in two ways. When the dates are \<open>2^31\<close> days
  apart: from 1999-12-31 to \<open>MAX_EPOCH\<close> the \<open>int\<close> difference of the day-counts overflows
  to \<open>INT_MIN\<close> in one direction and is \<open>INT_MIN\<close> in the other, so both offsets are the
  same negative number of seconds. When a \<open>second\<close> field is not-a-number: both offsets
  are not-a-number, which \<open>==\<close> never finds equal.
\<close>

theorem offsetFrom_counterexample:
  "valid_date (DateComponents_ymd 5881610 7 11) \<and> in_supported_range (DateComponents_ymd 5881610 7 11)
   \<and> valid_date (DateComponents_ymd 1999 12 31) \<and> in_supported_range (DateComponents_ymd 1999 12 31)
   \<and> offsetFrom \<lparr>date = DateComponents_ymd 5881610 7 11, time = H00\<rparr>
                \<lparr>date = DateComponents_ymd 1999 12 31, time = H00\<rparr> = Some (Finite (- 185542587187200))
   \<and> offsetFrom \<lparr>date = DateComponents_ymd 1999 12 31, time = H00\<rparr>
                \<lparr>date = DateComponents_ymd 5881610 7 11, time = H00\<rparr> = Some (Finite (- 185542587187200))
   \<and> \<not> deq (Finite (- 185542587187200)) (dneg (Finite (- 185542587187200)))
   \<and> offsetFrom \<lparr>date = DateComponents_ymd 2000 1 1, time = TimeComponents_hms 0 0 NaN\<rparr>
                \<lparr>date = DateComponents_ymd 2000 1 1, time = H00\<rparr> = Some NaN
   \<and> offsetFrom \<lparr>date = DateComponents_ymd 2000 1 1, time = H00\<rparr>
                \<lparr>date = DateComponents_ymd 2000 1 1, time = TimeComponents_hms 0 0 NaN\<rparr> = Some NaN
   \<and> \<not> deq NaN (dneg NaN)"
proof -
  have v: "valid_date (DateComponents_ymd 5881610 7 11)" "valid_date (DateComponents_ymd 1999 12 31)"
    by (simp_all add: valid_date_def valid_triple_def leap_year_def leapG_def tab_simps DateComponents_ymd_def)
  have r: "in_supported_range (DateComponents_ymd 5881610 7 11)"
    "in_supported_range (DateComponents_ymd 1999 12 31)"
    by (simp_all add: in_supported_range_iff DateComponents_ymd_def)
  have j: "getJ2000Day (DateComponents_ymd 5881610 7 11) = Some 2147483647"
    "getJ2000Day (DateComponents_ymd 1999 12 31) = Some (- 1)"
    "getJ2000Day (DateComponents_ymd 2000 1 1) = Some 0"
    by (simp_all add: eval_simps)
  have s: "getSecondsInUTCDay H00 = Finite 0"
    by (simp add: getSecondsInUTCDay_def H00_def TimeComponents_hms_def TimeComponents_hmsu_def
        int32_to_double_def round64_0)
  have n: "getSecondsInUTCDay (TimeComponents_hms 0 0 NaN) = NaN"
    by (simp add: getSecondsInUTCDay_def TimeComponents_hms_def TimeComponents_hmsu_def)
  have d: "int32_to_double 2147483648 = Finite (- 2147483648)"
    "int32_to_double (- 2147483648) = Finite (- 2147483648)"
    by (simp_all add: int32_to_double_def)
  have o: "offsetFrom \<lparr>date = DateComponents_ymd 5881610 7 11, time = H00\<rparr>
                \<lparr>date = DateComponents_ymd 1999 12 31, time = H00\<rparr> = Some (Finite (- 185542587187200))"
    "offsetFrom \<lparr>date = DateComponents_ymd 1999 12 31, time = H00\<rparr>
                \<lparr>date = DateComponents_ymd 5881610 7 11, time = H00\<rparr> = Some (Finite (- 185542587187200))"
    by (simp_all add: offsetFrom_def j s d JULIAN_DAY_def dsub_def round64_0 round64_numeral)
  have m: "offsetFrom \<lparr>date = DateComponents_ymd 2000 1 1, time = TimeComponents_hms 0 0 NaN\<rparr>
                \<lparr>date = DateComponents_ymd 2000 1 1, time = H00\<rparr> = Some NaN"
    "offsetFrom \<lparr>date = DateComponents_ymd 2000 1 1, time = H00\<rparr>
                \<lparr>date = DateComponents_ymd 2000 1 1, time = TimeComponents_hms 0 0 NaN\<rparr> = Some NaN"
    by (simp_all add: offsetFrom_def j s n JULIAN_DAY_def dsub_def int32_to_double_def round64_0)
  have q: "\<not> deq (Finite (- 185542587187200)) (dneg (Finite (- 185542587187200)))" "\<not> deq NaN (dneg NaN)"
    by (simp_all add: deq_def)
  from v r o m q show ?thesis by blast
qed




text \<open>
  C6 (as amended). Not-a-number fallback of \<open>fromSeconds\<close>: when \<open>leap\<close> is
  not-a-number and \<open>secondInDayB\<close> is a number whose floor fits an \<open>int\<close>, no error is
  raised, \<open>getSecond()\<close> is not-a-number, and hour and minute are those of
  \<open>wholeSeconds = secondInDayA + floor(secondInDayB)\<close>: \<open>hour = wholeSeconds / 3600\<close> and
  \<open>minute = (wholeSeconds % 3600) / 60\<close>. They are those of \<open>secondInDayA\<close> alone when
  \<open>0 <= secondInDayB < 1\<close>.
\<close>

theorem nan_fallback:
  "(- 2147483648 \<le> \<lfloor>b\<rfloor> \<and> \<lfloor>b\<rfloor> \<le> 2147483647 \<longrightarrow>
      (\<exists>tc. fromSeconds a (Finite b) NaN md = Some tc
         \<and> getHour tc = sdivw (a + word_of_int \<lfloor>b\<rfloor>) 3600
         \<and> getMinute tc = sdivw (smodw (a + word_of_int \<lfloor>b\<rfloor>) 3600) 60
         \<and> isnan (getSecond tc) \<and> getMinutesFromUTC tc = 0))
   \<and> (0 \<le> b \<and> b < 1 \<longrightarrow>
      (\<exists>tc. fromSeconds a (Finite b) NaN md = Some tc
         \<and> getHour tc = sdivw a 3600 \<and> getMinute tc = sdivw (smodw a 3600) 60
         \<and> isnan (getSecond tc) \<and> getMinutesFromUTC tc = 0))"
proof (intro conjI impI)
  assume "- 2147483648 \<le> \<lfloor>b\<rfloor> \<and> \<lfloor>b\<rfloor> \<le> 2147483647"
  then have "double_to_int32 (dfloor (Finite b)) = Some (word_of_int \<lfloor>b\<rfloor>)"
    by (intro carry_of_floor) simp_all
  then show "\<exists>tc. fromSeconds a (Finite b) NaN md = Some tc
         \<and> getHour tc = sdivw (a + word_of_int \<lfloor>b\<rfloor>) 3600
         \<and> getMinute tc = sdivw (smodw (a + word_of_int \<lfloor>b\<rfloor>) 3600) 60
         \<and> isnan (getSecond tc) \<and> getMinutesFromUTC tc = 0"
    by (simp add: fromSeconds_def TimeComponents_split_def Let_def getHour_def getMinute_def
        getSecond_def getMinutesFromUTC_def int32_to_double_def dsub_def minus_mult_sdivw)
next
  assume "0 \<le> b \<and> b < 1"
  then have "\<lfloor>b\<rfloor> = 0" by (intro floor_unique) simp_all
  then have "double_to_int32 (dfloor (Finite b)) = Some 0"
    using carry_of_floor [of b] by simp
  then show "\<exists>tc. fromSeconds a (Finite b) NaN md = Some tc
         \<and> getHour tc = sdivw a 3600 \<and> getMinute tc = sdivw (smodw a 3600) 60
         \<and> isnan (getSecond tc) \<and> getMinutesFromUTC tc = 0"
    by (simp add: fromSeconds_def TimeComponents_split_def Let_def getHour_def getMinute_def
        getSecond_def getMinutesFromUTC_def int32_to_double_def dsub_def minus_mult_sdivw)
qed

theorem nan_fallback_witness:
  "- 2147483648 \<le> \<lfloor>1 / 2 :: real\<rfloor> \<and> \<lfloor>1 / 2 :: real\<rfloor> \<le> 2147483647 \<and> (0::real) \<le> 1 / 2 \<and> (1 / 2 :: real) < 1
   \<and> sdivw (3725 :: int32) 3600 = 1 \<and> sdivw (smodw (3725 :: int32) 3600) 60 = 2
   \<and> (\<exists>tc. fromSeconds 3725 (Finite (1 / 2)) NaN 60 = Some tc
         \<and> getHour tc = 1 \<and> getMinute tc = 2 \<and> isnan (getSecond tc) \<and> getMinutesFromUTC tc = 0)"
proof -
  have f: "\<lfloor>1 / 2 :: real\<rfloor> = 0" by simp
  have d: "sdivw (3725 :: int32) 3600 = 1" "smodw (3725 :: int32) 3600 = 125" "sdivw (125 :: int32) 60 = 2"
    by (simp_all add: sdivw_def smodw_def signed_divide_int_def signed_modulo_int_def)
  from nan_fallback [of "1 / 2" 3725 60] show ?thesis by (simp add: f d)
qed

text \<open>
  The claim as stated fails when \<open>secondInDayB\<close> carries whole seconds: with
  \<open>secondInDayA = 0\<close>, \<open>secondInDayB = 3600.0\<close> and \<open>leap\<close> not-a-number the hour is 1,
  not \<open>secondInDayA / 3600 = 0\<close>.
\<close>

theorem nan_fallback_counterexample:
  "fromSeconds 0 (Finite 3600) NaN 60 = Some \<lparr>hour = 1, minute = 0, second = NaN, minutesFromUTC = 0\<rparr>
   \<and> sdivw (0 :: int32) 3600 = 0"
  by (simp add: fromSeconds_def TimeComponents_split_def Let_def int32_to_double_def dsub_def
      trunc_real_def sdivw_def signed_divide_int_def)

text \<open>
  C7. The claim says that a second-of-minute that reaches \<open>minuteDuration\<close> is replaced
  by the largest double below \<open>minuteDuration\<close>. The code stores
  \<open>(double)minuteDuration - 0.0000000001\<close> instead. For
  \<open>fromSeconds(59, 1 - 2^-53, 0.0, 60)\<close>, whose arguments meet every documented
  precondition, the sum \<open>59 + (1 - 2^-53)\<close> rounds to 60, and the second that is stored
  lies below \<open>60 - 2^-47\<close>, which is itself a double below 60.
\<close>

theorem clamp_subtracts_literal:
  "round64 (1 - 1 / 2 ^ 53) = Finite (1 - 1 / 2 ^ 53)
   \<and> fromSeconds 59 (Finite (1 - 1 / 2 ^ 53)) (Finite 0) 60
       = Some \<lparr>hour = 0, minute = 0, second = dsub (Finite 60) (round64 (1 / 10 ^ 10)),
               minutesFromUTC = 0\<rparr>
   \<and> (\<exists>v. dsub (Finite 60) (round64 (1 / 10 ^ 10)) = Finite v \<and> v < 60 - 1 / 2 ^ 47)
   \<and> round64 (60 - 1 / 2 ^ 47) = Finite (60 - 1 / 2 ^ 47)"
proof -
  define b :: real where "b = 1 - 1 / 2 ^ 53"
  have b: "0 \<le> b" "b < 1" by (simp_all add: b_def)
  have rb: "round64 b = Finite b"
    using round64_dyadic [of 9007199254740991 53] by (simp add: b_def)
  have r60: "round64 (59 + b) = Finite 60"
    unfolding b_def by (rule round_just_below_60)
  have "\<lfloor>b\<rfloor> = 0" using b by (intro floor_unique) simp_all
  then have carry: "double_to_int32 (dfloor (Finite b)) = Some 0"
    using carry_of_floor [of b] by simp
  have d: "sdivw (59 :: int32) 3600 = 0" "sdivw (59 :: int32) 60 = 0"
    by (simp_all add: sdivw_def signed_divide_int_def)
  have i: "int32_to_double 0 = Finite 0" "int32_to_double 59 = Finite 59" "int32_to_double 60 = Finite 60"
    by (simp_all add: int32_to_double_def)
  have fr: "dsub (Finite b) (Finite 0) = Finite b" by (simp add: dsub_def rb)
  have lf: "dadd (Finite 0) (Finite b) = Finite b" by (simp add: rb)
  have nv: "dadd (Finite 59) (Finite b) = Finite 60" by (simp add: r60)
  have code: "fromSeconds 59 (Finite b) (Finite 0) 60
       = Some \<lparr>hour = 0, minute = 0, second = dsub (Finite 60) (round64 (1 / 10 ^ 10)),
               minutesFromUTC = 0\<rparr>"
    unfolding fromSeconds_def TimeComponents_split_def carry option.case Let_def
    by (simp add: d i fr lf nv rb r60)
  obtain c where c: "round64 (1 / 10 ^ 10) = Finite c" "9 / 10 ^ 11 < c" "c < 11 / 10 ^ 11"
    using literal_1e_10 by blast
  have "\<bar>60 - c\<bar> \<le> 2 ^ 100" using c by simp
  from round64_bounds [OF this] obtain v where v: "round64 (60 - c) = Finite v"
    "\<bar>v - (60 - c)\<bar> \<le> \<bar>60 - c\<bar> / 2 ^ 53 + 1 / 2 ^ 1075" by blast
  have "\<bar>60 - c\<bar> \<le> 60" using c by simp
  then have "\<bar>60 - c\<bar> / 2 ^ 53 + 1 / 2 ^ 1075 \<le> 60 / 2 ^ 53 + 1 / 2 ^ 1075"
    by (intro add_mono divide_right_mono) simp_all
  with v(2) have "v - (60 - c) \<le> 60 / 2 ^ 53 + 1 / 2 ^ 1075" by linarith
  moreover have "60 - 9 / 10 ^ 11 + (60 / 2 ^ 53 + 1 / 2 ^ 1075) < (60 - 1 / 2 ^ 47 :: real)" by simp
  ultimately have "v < 60 - 1 / 2 ^ 47" using c(2) by linarith
  moreover have "dsub (Finite 60) (round64 (1 / 10 ^ 10)) = Finite v"
    unfolding c(1) dsub_def using v(1) by simp
  ultimately have low: "\<exists>v. dsub (Finite 60) (round64 (1 / 10 ^ 10)) = Finite v \<and> v < 60 - 1 / 2 ^ 47"
    by blast
  have nd: "round64 (60 - 1 / 2 ^ 47) = Finite (60 - 1 / 2 ^ 47)"
    using round64_dyadic [of 8444249301319679 47] by simp
  show ?thesis using rb code low nd unfolding b_def by blast
qed


text \<open>
  C10 (as amended). Implicit leap-second handling of \<open>TimeComponents(secondInDayA,
  secondInDayB)\<close>: for all \<open>secondInDayA\<close> and \<open>secondInDayB\<close> whose exact sum satisfies
  \<open>0 <= secondInDayA + secondInDayB < 86401\<close> and with \<open>floor(secondInDayB)\<close> in the range of
  \<open>int\<close>, the constructor returns a value. When \<open>(86400 - secondInDayA) - secondInDayB > 0\<close>
  it is the one of \<open>fromSeconds(secondInDayA, secondInDayB, 0, 60)\<close>, otherwise the one of
  \<open>fromSeconds(secondInDayA - 1, secondInDayB, 1, 61)\<close>. The result has its hour in
  \<open>[0, 23]\<close>, its minute in \<open>[0, 59]\<close>, \<open>0 <= getSecond() < 61\<close> and
  \<open>getMinutesFromUTC() == 0\<close>.
\<close>

theorem implicit_leap_second:
  "0 \<le> real_of_int (sint a) + b \<and> real_of_int (sint a) + b < 86401
     \<and> - 2147483648 \<le> \<lfloor>b\<rfloor> \<and> \<lfloor>b\<rfloor> \<le> 2147483647
   \<longrightarrow> TimeComponents_ab a (Finite b)
         = (if dless (Finite 0) (dsub (dsub JULIAN_DAY (int32_to_double a)) (Finite b))
            then fromSeconds a (Finite b) (Finite 0) 60
            else fromSeconds (a - 1) (Finite b) (Finite 1) 61)
       \<and> (\<exists>tc s. TimeComponents_ab a (Finite b) = Some tc
            \<and> 0 \<le> sint (getHour tc) \<and> sint (getHour tc) \<le> 23
            \<and> 0 \<le> sint (getMinute tc) \<and> sint (getMinute tc) \<le> 59
            \<and> getSecond tc = Finite s \<and> 0 \<le> s \<and> s < 61 \<and> getMinutesFromUTC tc = 0)"
proof (intro impI)
  assume h: "0 \<le> real_of_int (sint a) + b \<and> real_of_int (sint a) + b < 86401
     \<and> - 2147483648 \<le> \<lfloor>b\<rfloor> \<and> \<lfloor>b\<rfloor> \<le> 2147483647"
  then have fl: "- 2147483648 \<le> \<lfloor>b\<rfloor>" "\<lfloor>b\<rfloor> \<le> 2147483647" by simp_all
  define inDay where "inDay = dless (Finite 0) (dsub (dsub JULIAN_DAY (int32_to_double a)) (Finite b))"
  have br: "TimeComponents_ab a (Finite b)
      = (if inDay then fromSeconds a (Finite b) (Finite 0) 60
         else fromSeconds (a - 1) (Finite b) (Finite 1) 61)"
    by (simp add: TimeComponents_ab_def fromSeconds_def Let_def inDay_def)
  have "\<exists>tc s. TimeComponents_ab a (Finite b) = Some tc
      \<and> 0 \<le> sint (hour tc) \<and> sint (hour tc) \<le> 23 \<and> 0 \<le> sint (minute tc) \<and> sint (minute tc) \<le> 59
      \<and> second tc = Finite s \<and> 0 \<le> s \<and> s < 61 \<and> minutesFromUTC tc = 0"
  proof (cases inDay)
    case True
    define W where "W = sint a + \<lfloor>b\<rfloor>"
    have "real_of_int (sint a) + b < 86400"
      using True in_day_test(1) [OF fl, of a] by (simp add: inDay_def)
    with h have W: "0 \<le> W" "W \<le> 86399" unfolding W_def by linarith+
    have e: "a + word_of_int \<lfloor>b\<rfloor> = word_of_int W" by (simp add: W_def)
    from split_in_day [OF fl e W, of 0 60] obtain tc s where
      r: "TimeComponents_split a (Finite b) (Finite 0) 60 = Some tc"
        "sint (hour tc) = W div 3600" "sint (minute tc) = W mod 3600 div 60"
        "second tc = Finite s" "0 \<le> s" "s < 61" "minutesFromUTC tc = 0"
      by auto
    have "0 \<le> W div 3600" "W div 3600 \<le> 23" "0 \<le> W mod 3600 div 60" "W mod 3600 div 60 \<le> 59"
      using W by simp_all
    with r True show ?thesis unfolding br fromSeconds_def by simp
  next
    case False
    define W where "W = sint a - 1 + \<lfloor>b\<rfloor>"
    have "86399 < real_of_int (sint a) + b"
      using False in_day_test(2) [OF fl, of a] by (simp add: inDay_def)
    with h have W: "0 \<le> W" "W \<le> 86399" unfolding W_def by linarith+
    have e: "a - 1 + word_of_int \<lfloor>b\<rfloor> = word_of_int W" by (simp add: W_def)
    from split_in_day [OF fl e W, of 1 61] obtain tc s where
      r: "TimeComponents_split (a - 1) (Finite b) (Finite 1) 61 = Some tc"
        "sint (hour tc) = W div 3600" "sint (minute tc) = W mod 3600 div 60"
        "second tc = Finite s" "0 \<le> s" "s < 61" "minutesFromUTC tc = 0"
      by auto
    have "0 \<le> W div 3600" "W div 3600 \<le> 23" "0 \<le> W mod 3600 div 60" "W mod 3600 div 60 \<le> 59"
      using W by simp_all
    with r False show ?thesis unfolding br fromSeconds_def by simp
  qed
  then show "TimeComponents_ab a (Finite b)
         = (if dless (Finite 0) (dsub (dsub JULIAN_DAY (int32_to_double a)) (Finite b))
            then fromSeconds a (Finite b) (Finite 0) 60
            else fromSeconds (a - 1) (Finite b) (Finite 1) 61)
       \<and> (\<exists>tc s. TimeComponents_ab a (Finite b) = Some tc
            \<and> 0 \<le> sint (getHour tc) \<and> sint (getHour tc) \<le> 23
            \<and> 0 \<le> sint (getMinute tc) \<and> sint (getMinute tc) \<le> 59
            \<and> getSecond tc = Finite s \<and> 0 \<le> s \<and> s < 61 \<and> getMinutesFromUTC tc = 0)"
    using br unfolding inDay_def getHour_def getMinute_def getSecond_def getMinutesFromUTC_def
    by blast
qed

theorem implicit_leap_second_witness:
  "0 \<le> real_of_int (sint (86400 :: int32)) + 1 / 2 \<and> real_of_int (sint (86400 :: int32)) + 1 / 2 < 86401
   \<and> - 2147483648 \<le> \<lfloor>1 / 2 :: real\<rfloor> \<and> \<lfloor>1 / 2 :: real\<rfloor> \<le> 2147483647
   \<and> \<not> dless (Finite 0) (dsub (dsub JULIAN_DAY (int32_to_double 86400)) (Finite (1 / 2)))
   \<and> TimeComponents_ab 86400 (Finite (1 / 2)) = fromSeconds 86399 (Finite (1 / 2)) (Finite 1) 61
   \<and> fromSeconds 86399 (Finite (1 / 2)) (Finite 1) 61
       = Some \<lparr>hour = 23, minute = 59, second = Finite (121 / 2), minutesFromUTC = 0\<rparr>"
proof -
  have r: "round64 (1 / 2) = Finite (1 / 2)" "round64 (- (1 / 2)) = Finite (- (1 / 2))"
    "round64 (3 / 2) = Finite (3 / 2)" "round64 (121 / 2) = Finite (121 / 2)"
    using round64_dyadic [of 1 1] round64_dyadic [of "- 1" 1] round64_dyadic [of 3 1]
      round64_dyadic [of 121 1] by simp_all
  have i: "int32_to_double 86400 = Finite 86400" "int32_to_double 0 = Finite 0"
    "int32_to_double 59 = Finite 59" "int32_to_double 61 = Finite 61"
    by (simp_all add: int32_to_double_def)
  have n: "\<not> dless (Finite 0) (dsub (dsub JULIAN_DAY (int32_to_double 86400)) (Finite (1 / 2)))"
    by (simp add: i JULIAN_DAY_def dsub_def round64_0 r)
  have f: "\<lfloor>1 / 2 :: real\<rfloor> = 0" by simp
  then have carry: "double_to_int32 (dfloor (Finite (1 / 2))) = Some 0"
    using carry_of_floor [of "1 / 2"] by simp
  have d: "sdivw (86399 :: int32) 3600 = 23" "sdivw (3599 :: int32) 60 = 59"
    by (simp_all add: sdivw_def signed_divide_int_def)
  have v: "fromSeconds 86399 (Finite (1 / 2)) (Finite 1) 61
       = Some \<lparr>hour = 23, minute = 59, second = Finite (121 / 2), minutesFromUTC = 0\<rparr>"
    unfolding fromSeconds_def TimeComponents_split_def carry option.case Let_def
    by (simp add: d i dsub_def r)
  from implicit_leap_second [of 86400 "1 / 2"] n f v show ?thesis by simp
qed

text \<open>
  The claim as stated fails when \<open>floor(secondInDayB)\<close> does not fit an \<open>int\<close>: with
  \<open>secondInDayA = INT_MIN\<close> and \<open>secondInDayB = 2147483648.0\<close> the sum is 0, and the
  conversion \<open>static_cast<int>(std::floor(secondInDayB))\<close> is undefined.
\<close>

theorem implicit_leap_second_counterexample:
  "0 \<le> real_of_int (sint (- 2147483648 :: int32)) + 2147483648
   \<and> real_of_int (sint (- 2147483648 :: int32)) + 2147483648 < 86401
   \<and> TimeComponents_ab (- 2147483648) (Finite 2147483648) = None"
  by (simp add: TimeComponents_ab_def TimeComponents_split_def Let_def trunc_real_def)


end
